theory Spec2Isabelle
  imports Main "HOL-Library.Sublist" "HOL-Library.List_Lexorder"
begin

section \<open>The host page: elements, inline style, the document\<close>

text \<open>
  The panel reads and writes the live DOM. Only what the panel touches is represented:
  an element's tag name, its content attributes, its \<^verbatim>\<open>style\<close> attribute and its child
  elements (text nodes are never shown to the tree walker, which is created with
  \<^verbatim>\<open>NodeFilter.SHOW_ELEMENT\<close>, and are left out).

  The inline style of an element is its \<^verbatim>\<open>style\<close> content attribute: the text as the
  page wrote it or as the browser last serialised it, or no attribute at all. It is kept
  apart from the other attributes because assignments to \<^verbatim>\<open>el.style\<close> rewrite it.
\<close>

datatype HTMLElement =
  Element (elTagName: string) (attributes: "(string \<times> string) list")
    (styleAttribute: "string option") (childElements: "HTMLElement list")

text \<open>
  An element reference is the element's position in the document: the list of child
  indices leading to it from the root element \<^verbatim>\<open><html>\<close>, whose reference is \<open>[]\<close>.
  Two references are the same object (\<^verbatim>\<open>===\<close>) exactly when they are the same path.
  \<^verbatim>\<open>parentElement\<close> drops the last index; the root element has none. Neither the scan
  nor the selection adds, removes or moves an element, so a path denotes the same element
  before and after them.
\<close>

type_synonym eref = "nat list"

fun resolve :: "HTMLElement \<Rightarrow> eref \<Rightarrow> HTMLElement option" where
  "resolve e [] = Some e"
| "resolve e (i # p) =
     (if i < length (childElements e) then resolve (childElements e ! i) p else None)"

definition parentElement :: "eref \<Rightarrow> eref option" where
  "parentElement p = (if p = [] then None else Some (butlast p))"

text \<open>
  \<^verbatim>\<open>document.body\<close> is typed \<^verbatim>\<open>HTMLElement\<close> (never null) by the DOM typings the
  source is compiled against, so a document always has its body: the children of the
  root element are \<open>preBody\<close> (the head), the body, and \<open>postBody\<close>.
\<close>

record document =
  htmlAttributes :: "(string \<times> string) list"
  htmlStyle :: "string option"
  preBody :: "HTMLElement list"
  body :: HTMLElement
  postBody :: "HTMLElement list"

definition documentElement :: "document \<Rightarrow> HTMLElement" where
  "documentElement d =
     Element ''HTML'' (htmlAttributes d) (htmlStyle d) (preBody d @ body d # postBody d)"

definition document_body :: "document \<Rightarrow> eref" where
  "document_body d = [length (preBody d)]"

definition withDocumentElement :: "document \<Rightarrow> HTMLElement \<Rightarrow> document" where
  "withDocumentElement d e =
     (let k = length (preBody d) in
      d\<lparr>htmlAttributes := attributes e, htmlStyle := styleAttribute e,
        preBody := take k (childElements e), body := childElements e ! k,
        postBody := drop (Suc k) (childElements e)\<rparr>)"

definition hasAttribute :: "document \<Rightarrow> eref \<Rightarrow> string \<Rightarrow> bool" where
  "hasAttribute d p name =
     (case resolve (documentElement d) p of
        None \<Rightarrow> False
      | Some e \<Rightarrow> map_of (attributes e) name \<noteq> None)"

definition getAttribute :: "document \<Rightarrow> eref \<Rightarrow> string \<Rightarrow> string option" where
  "getAttribute d p name =
     (case resolve (documentElement d) p of
        None \<Rightarrow> None
      | Some e \<Rightarrow> map_of (attributes e) name)"

definition tagNameOf :: "document \<Rightarrow> eref \<Rightarrow> string" where
  "tagNameOf d p =
     (case resolve (documentElement d) p of None \<Rightarrow> '''' | Some e \<Rightarrow> elTagName e)"

text \<open>
  Document order. \<open>descendants p i cs\<close> lists, in document order (pre-order), the
  references of the elements \<open>cs\<close> and of everything below them, where \<open>cs\<close> are the
  children of the element \<open>p\<close> from index \<open>i\<close> on.
\<close>

fun descendants :: "eref \<Rightarrow> nat \<Rightarrow> HTMLElement list \<Rightarrow> eref list" where
  "descendants p i [] = []"
| "descendants p i (Element t a s ks # cs) =
     (p @ [i]) # descendants (p @ [i]) 0 ks @ descendants p (Suc i) cs"

text \<open>
  \<^verbatim>\<open>walker.nextNode()\<close> starts at the root of the walker and moves forward, so the root
  itself is never returned: the walk yields the elements strictly below the root.
\<close>

definition elementsBelow :: "document \<Rightarrow> eref \<Rightarrow> eref list" where
  "elementsBelow d root =
     (case resolve (documentElement d) root of
        None \<Rightarrow> []
      | Some e \<Rightarrow> descendants root 0 (childElements e))"

definition allElements :: "document \<Rightarrow> eref list" where
  "allElements d = [] # elementsBelow d []"

section \<open>Component nodes\<close>

text \<open>
  A \<^verbatim>\<open>ComponentNode\<close> is a mutable object with an identity. Objects live in a heap;
  a node reference is the address of the object (its index in the heap), and
  \<^verbatim>\<open>===\<close> on nodes is equality of addresses. A new object is put at the first free
  address. \<open>depth\<close> is a JavaScript number holding a small natural number.
\<close>

type_synonym nref = nat

record ComponentNode =
  element :: eref
  sourcePath :: string
  tagName :: string
  children :: "nref list"
  depth :: nat

type_synonym heap = "ComponentNode list"

text \<open>The panel (its two \<^verbatim>\<open>@state\<close> fields) together with the page and the heap.\<close>

record world =
  doc :: document
  heap :: heap
  componentTree :: "nref list"
  selectedNode :: "nref option"

section \<open>The scanner\<close>

datatype filterResult = FILTER_ACCEPT | FILTER_SKIP

definition acceptNode :: "document \<Rightarrow> eref \<Rightarrow> filterResult" where
  "acceptNode d node =
     (if hasAttribute d node ''data-source-path'' then FILTER_ACCEPT else FILTER_SKIP)"

definition findElementsWithSourcePath :: "document \<Rightarrow> eref \<Rightarrow> eref list" where
  "findElementsWithSourcePath d root =
     filter (\<lambda>node. acceptNode d node = FILTER_ACCEPT) (elementsBelow d root)"

text \<open>\<^verbatim>\<open>nodes.find(node => node.element === parent)\<close>, then up the ancestor chain.\<close>

function findParentLoop :: "heap \<Rightarrow> eref option \<Rightarrow> nref list \<Rightarrow> nref option" where
  "findParentLoop h None nodes = None"
| "findParentLoop h (Some parent) nodes =
     (case find (\<lambda>node. element (h ! node) = parent) nodes of
        Some parentNode \<Rightarrow> Some parentNode
      | None \<Rightarrow> findParentLoop h (parentElement parent) nodes)"
  by pat_completeness auto
termination
  by (relation "measure (\<lambda>(h, parent, nodes). case parent of None \<Rightarrow> 0 | Some p \<Rightarrow> Suc (length p))")
    (auto simp: parentElement_def split: if_splits)

definition findParentNode :: "heap \<Rightarrow> eref \<Rightarrow> nref list \<Rightarrow> nref option" where
  "findParentNode h el nodes = findParentLoop h (parentElement el) nodes"

text \<open>
  \<^verbatim>\<open>String.prototype.toLowerCase\<close> belongs to the JavaScript engine; its case mapping
  (the Unicode tables) is not part of this repository. It is a parameter of the scanner,
  named \<open>toLowerCase\<close>, and every property below holds whatever function it is.
\<close>

definition newNode :: "(string \<Rightarrow> string) \<Rightarrow> document \<Rightarrow> eref \<Rightarrow> ComponentNode" where
  "newNode toLowerCase d el =
     \<lparr>element = el,
      sourcePath = (case getAttribute d el ''data-source-path'' of
                      None \<Rightarrow> '''' | Some v \<Rightarrow> if v = '''' then '''' else v),
      tagName = toLowerCase (tagNameOf d el),
      children = [],
      depth = 0\<rparr>"

text \<open>The first loop of \<^verbatim>\<open>buildTree\<close>: one new object per element, pushed to \<open>nodes\<close>.\<close>

fun createNodes ::
  "(string \<Rightarrow> string) \<Rightarrow> document \<Rightarrow> eref list \<Rightarrow> heap \<Rightarrow> nref list \<Rightarrow> heap \<times> nref list" where
  "createNodes toLowerCase d [] h nodes = (h, nodes)"
| "createNodes toLowerCase d (el # els) h nodes =
     createNodes toLowerCase d els (h @ [newNode toLowerCase d el]) (nodes @ [length h])"

text \<open>The second loop: each node is pushed to its parent's children or to the roots.\<close>

fun linkNodes :: "nref list \<Rightarrow> nref list \<Rightarrow> heap \<Rightarrow> nref list \<Rightarrow> heap \<times> nref list" where
  "linkNodes nodes [] h rootNodes = (h, rootNodes)"
| "linkNodes nodes (node # rest) h rootNodes =
     (case findParentNode h (element (h ! node)) nodes of
        Some parent \<Rightarrow>
          let h1 = h[parent := (h ! parent)\<lparr>children := children (h ! parent) @ [node]\<rparr>];
              h2 = h1[node := (h1 ! node)\<lparr>depth := depth (h1 ! parent) + 1\<rparr>]
          in linkNodes nodes rest h2 rootNodes
      | None \<Rightarrow> linkNodes nodes rest h (rootNodes @ [node]))"

definition buildTree ::
  "(string \<Rightarrow> string) \<Rightarrow> document \<Rightarrow> heap \<Rightarrow> eref list \<Rightarrow> heap \<times> nref list" where
  "buildTree toLowerCase d h els =
     (case createNodes toLowerCase d els h [] of (h1, nodes) \<Rightarrow> linkNodes nodes nodes h1 [])"

definition scanComponentTree :: "(string \<Rightarrow> string) \<Rightarrow> world \<Rightarrow> world" where
  "scanComponentTree toLowerCase w =
     (let rootElements = findElementsWithSourcePath (doc w) (document_body (doc w))
      in case buildTree toLowerCase (doc w) (heap w) rootElements of
           (h, rootNodes) \<Rightarrow> w\<lparr>heap := h, componentTree := rootNodes\<rparr>)"

section \<open>Selection and highlighting\<close>

text \<open>
  What an assignment to \<^verbatim>\<open>el.style.outline\<close> or \<^verbatim>\<open>el.style.outlineOffset\<close> does to the
  \<^verbatim>\<open>style\<close> attribute (parsing the declarations, expanding the shorthand, normalising
  the value, serialising the block again), and what \<^verbatim>\<open>el.style.outline\<close> reads, is the
  browser's CSS object model. It is not part of this repository and is a parameter:
  \<open>setOutline css v\<close> and \<open>setOutlineOffset css v\<close> map the \<^verbatim>\<open>style\<close> attribute before the
  assignment of \<open>v\<close> to the attribute after it, \<open>getOutline css\<close> reads the outline of an
  element with the given \<^verbatim>\<open>style\<close> attribute.
\<close>

record CSSOM =
  setOutline :: "string \<Rightarrow> string option \<Rightarrow> string option"
  setOutlineOffset :: "string \<Rightarrow> string option \<Rightarrow> string option"
  getOutline :: "string option \<Rightarrow> string"

fun updateStyle :: "(string option \<Rightarrow> string option) \<Rightarrow> eref \<Rightarrow> HTMLElement \<Rightarrow> HTMLElement" where
  "updateStyle g [] (Element t a s cs) = Element t a (g s) cs"
| "updateStyle g (i # p) (Element t a s cs) =
     (if i < length cs then Element t a s (cs[i := updateStyle g p (cs ! i)])
      else Element t a s cs)"

text \<open>
  An assignment to a property of \<^verbatim>\<open>el.style\<close> changes the \<^verbatim>\<open>style\<close> attribute of \<open>el\<close>
  by \<open>g\<close>. A reference that is not in the document denotes a detached element: the
  assignment does not change the document.
\<close>

definition updateStyleAttribute ::
  "(string option \<Rightarrow> string option) \<Rightarrow> eref \<Rightarrow> document \<Rightarrow> document" where
  "updateStyleAttribute g el d = withDocumentElement d (updateStyle g el (documentElement d))"

text \<open>
  The attribute selector \<^verbatim>\<open>[att*="val"]\<close>: the attribute is there and its value contains
  \<open>val\<close>, compared character by character (the value of a \<^verbatim>\<open>style\<close> attribute is matched
  case-sensitively); an empty \<open>val\<close> matches nothing.
\<close>

definition attributeContains :: "string option \<Rightarrow> string \<Rightarrow> bool" where
  "attributeContains a val =
     (case a of None \<Rightarrow> False | Some text \<Rightarrow> val \<noteq> '''' \<and> sublist val text)"

text \<open>
  \<^verbatim>\<open>document.querySelectorAll('[style*="outline"]')\<close>: the elements of the document, in
  document order, whose \<^verbatim>\<open>style\<close> attribute contains the text \<^verbatim>\<open>outline\<close>. The list is
  static: it is made before the first assignment.
\<close>

definition matchesOutlineSelector :: "document \<Rightarrow> eref \<Rightarrow> bool" where
  "matchesOutlineSelector d el =
     (case resolve (documentElement d) el of
        None \<Rightarrow> False
      | Some e \<Rightarrow> attributeContains (styleAttribute e) ''outline'')"

definition querySelectorAll_outline :: "document \<Rightarrow> eref list" where
  "querySelectorAll_outline d = filter (matchesOutlineSelector d) (allElements d)"

definition clearHighlights :: "CSSOM \<Rightarrow> world \<Rightarrow> world" where
  "clearHighlights css w =
     (let highlightedElements = querySelectorAll_outline (doc w)
      in w\<lparr>doc := fold (\<lambda>el d. updateStyleAttribute (setOutlineOffset css '''') el
                                   (updateStyleAttribute (setOutline css '''') el d))
                     highlightedElements (doc w)\<rparr>)"

definition selectNode :: "CSSOM \<Rightarrow> world \<Rightarrow> nref \<Rightarrow> world" where
  "selectNode css w node =
     (let w1 = w\<lparr>selectedNode := Some node\<rparr>;
          w2 = clearHighlights css w1;
          el = element (heap w2 ! node);
          d1 = updateStyleAttribute (setOutline css ''2px solid #007acc'') el (doc w2);
          d2 = updateStyleAttribute (setOutlineOffset css ''2px'') el d1
      in w2\<lparr>doc := d2\<rparr>)"

section \<open>Rendering\<close>

text \<open>
  One rendered \<^verbatim>\<open>div.tree-node\<close>: its class attribute, the text of the three spans
  and the node its click handler selects. The result of a render is the sequence of
  these elements in the order the template produces them. The recursion of
  \<^verbatim>\<open>renderTreeNode\<close> follows \<open>children\<close> through the heap; the first argument bounds
  its depth, and \<open>None\<close> means the bound was reached.
\<close>

record treeNodeDiv =
  cssClass :: string
  indentText :: string
  tagText :: string
  pathText :: string
  clickTarget :: nref

definition repeat :: "string \<Rightarrow> nat \<Rightarrow> string" where
  "repeat s n = concat (replicate n s)"

definition treeNodeLine :: "world \<Rightarrow> nref \<Rightarrow> treeNodeDiv" where
  "treeNodeLine w node =
     (let indent = repeat ''  '' (depth (heap w ! node));
          isSelected = (selectedNode w = Some node)
      in \<lparr>cssClass = ''tree-node '' @ (if isSelected then ''selected'' else ''''),
          indentText = indent,
          tagText = ''<'' @ tagName (heap w ! node) @ ''>'',
          pathText = sourcePath (heap w ! node),
          clickTarget = node\<rparr>)"

fun renderTreeNode :: "nat \<Rightarrow> world \<Rightarrow> nref \<Rightarrow> treeNodeDiv list option" where
  "renderTreeNode 0 w node = None"
| "renderTreeNode (Suc fuel) w node =
     map_option (\<lambda>rendered. treeNodeLine w node # concat rendered)
       (those (map (renderTreeNode fuel w) (children (heap w ! node))))"

definition renderTree :: "nat \<Rightarrow> world \<Rightarrow> treeNodeDiv list option" where
  "renderTree fuel w = map_option concat (those (map (renderTreeNode fuel w) (componentTree w)))"

text \<open>
  The detail panel, without the position and size lines, which come from the layout
  engine (\<^verbatim>\<open>getBoundingClientRect\<close>): tag, source path and number of children.
\<close>

definition renderSelectedNodeInfo :: "world \<Rightarrow> (string \<times> string \<times> nat) option" where
  "renderSelectedNodeInfo w =
     (case selectedNode w of
        None \<Rightarrow> None
      | Some node \<Rightarrow>
          Some (tagName (heap w ! node), sourcePath (heap w ! node),
                length (children (heap w ! node))))"

section \<open>The nodes of a forest\<close>

text \<open>
  The nodes of the forest below a node, the node first and then, child after child,
  the nodes below each child: every occurrence is listed, so a node that could be
  reached twice would be listed twice.
\<close>

fun nodesBelow :: "nat \<Rightarrow> heap \<Rightarrow> nref \<Rightarrow> nref list option" where
  "nodesBelow 0 h node = None"
| "nodesBelow (Suc fuel) h node =
     map_option (\<lambda>below. node # concat below)
       (those (map (nodesBelow fuel h) (children (h ! node))))"

definition forestNodes :: "nat \<Rightarrow> heap \<Rightarrow> nref list \<Rightarrow> nref list option" where
  "forestNodes fuel h roots = map_option concat (those (map (nodesBelow fuel h) roots))"

section \<open>Notions used to state the properties\<close>

text \<open>
  Document order on element references is the lexicographic order on paths (\<open><\<close> on
  lists of natural numbers): an ancestor comes before its descendants, and an element's
  subtree comes before its following siblings. An element \<open>q\<close> is a strict ancestor of
  \<open>p\<close> when \<open>strict_prefix q p\<close>.

  The strict ancestors of an element, outermost first, and those of them that carry the
  marker attribute.
\<close>

definition properAncestors :: "eref \<Rightarrow> eref list" where
  "properAncestors el = map (\<lambda>k. take k el) [0..<length el]"

definition markedAncestors :: "document \<Rightarrow> eref \<Rightarrow> eref list" where
  "markedAncestors d el = filter (\<lambda>q. hasAttribute d q ''data-source-path'') (properAncestors el)"

text \<open>
  The value of a forest: what is left of a tree of nodes when the identity of the
  objects is forgotten. Two forests are structurally identical when their values are
  equal.
\<close>

datatype snapshot = Snapshot eref string string nat "snapshot list"

fun snapshotOf :: "nat \<Rightarrow> heap \<Rightarrow> nref \<Rightarrow> snapshot option" where
  "snapshotOf 0 h node = None"
| "snapshotOf (Suc fuel) h node =
     map_option
       (Snapshot (element (h ! node)) (sourcePath (h ! node)) (tagName (h ! node)) (depth (h ! node)))
       (those (map (snapshotOf fuel h) (children (h ! node))))"

definition forestSnapshot :: "nat \<Rightarrow> heap \<Rightarrow> nref list \<Rightarrow> snapshot list option" where
  "forestSnapshot fuel h roots = those (map (snapshotOf fuel h) roots)"

text \<open>
  The \<^verbatim>\<open>style\<close> attribute of an element of the document (\<open>None\<close> when the reference is
  not an element of the document, \<open>Some None\<close> when the element has no such attribute),
  and the tag name, attributes and number of children of an element: what a change of
  inline styles leaves alone.
\<close>

definition styleAttributeOf :: "document \<Rightarrow> eref \<Rightarrow> string option option" where
  "styleAttributeOf d el = map_option styleAttribute (resolve (documentElement d) el)"

definition shapeOf :: "document \<Rightarrow> eref \<Rightarrow> (string \<times> (string \<times> string) list \<times> nat) option" where
  "shapeOf d el =
     map_option (\<lambda>e. (elTagName e, attributes e, length (childElements e)))
       (resolve (documentElement d) el)"

section \<open>Notions used in the proofs\<close>

text \<open>
  \<open>nearestIn els a\<close> walks up from \<open>a\<close> (itself included) and gives the first reference
  that is in the list \<open>els\<close>. \<open>linkedHeap toLowerCase d h0 els k\<close> and \<open>linkedRoots els b k\<close> describe
  the heap and the root list after the second loop of \<^verbatim>\<open>buildTree\<close> has processed the
  first \<open>k\<close> nodes, the new objects being at the addresses from \<open>length h0\<close> on.
\<close>

function nearestIn :: "eref list \<Rightarrow> eref option \<Rightarrow> eref option" where
  "nearestIn els None = None"
| "nearestIn els (Some q) = (if q \<in> set els then Some q else nearestIn els (parentElement q))"
  by pat_completeness auto
termination
  by (relation "measure (\<lambda>(els, parent). case parent of None \<Rightarrow> 0 | Some p \<Rightarrow> Suc (length p))")
    (auto simp: parentElement_def split: if_splits)

definition linkedNode ::
  "(string \<Rightarrow> string) \<Rightarrow> document \<Rightarrow> eref list \<Rightarrow> nat \<Rightarrow> nat \<Rightarrow> nat \<Rightarrow> ComponentNode" where
  "linkedNode toLowerCase d els b k i =
     (newNode toLowerCase d (els ! i))
       \<lparr>children := map ((+) b) [j \<leftarrow> [0..<k]. nearestIn els (parentElement (els ! j)) = Some (els ! i)],
        depth := (if i < k then length [x \<leftarrow> els. strict_prefix x (els ! i)] else 0)\<rparr>"

definition linkedHeap ::
  "(string \<Rightarrow> string) \<Rightarrow> document \<Rightarrow> heap \<Rightarrow> eref list \<Rightarrow> nat \<Rightarrow> heap" where
  "linkedHeap toLowerCase d h0 els k =
     h0 @ map (linkedNode toLowerCase d els (length h0) k) [0..<length els]"

definition linkedRoots :: "eref list \<Rightarrow> nat \<Rightarrow> nat \<Rightarrow> nref list" where
  "linkedRoots els b k = map ((+) b) [j \<leftarrow> [0..<k]. nearestIn els (parentElement (els ! j)) = None]"

text \<open>
  Positions in the collected list: the elements at or below the \<open>i\<close>-th one, those
  strictly below a given element (all of them for \<open>None\<close>), and those whose nearest
  collected ancestor is a given element (none for \<open>None\<close>).
\<close>

definition subtreeIdx :: "eref list \<Rightarrow> nat \<Rightarrow> nat list" where
  "subtreeIdx els i = [j \<leftarrow> [0..<length els]. prefix (els ! i) (els ! j)]"

definition belowIdx :: "eref list \<Rightarrow> eref option \<Rightarrow> nat list" where
  "belowIdx els a =
     [j \<leftarrow> [0..<length els]. case a of None \<Rightarrow> True | Some q \<Rightarrow> strict_prefix q (els ! j)]"

definition childIdx :: "eref list \<Rightarrow> eref option \<Rightarrow> nat list" where
  "childIdx els a = [j \<leftarrow> [0..<length els]. nearestIn els (parentElement (els ! j)) = a]"

section \<open>Example pages\<close>

text \<open>
  The scenario of the specification: a marked \<^verbatim>\<open>div\<close> holding a marked \<^verbatim>\<open>span\<close>
  holding an unmarked \<^verbatim>\<open>i\<close> holding a marked \<^verbatim>\<open>b\<close>. The panel itself sits in the body.
\<close>

definition scenarioPage :: document where
  "scenarioPage =
     \<lparr>htmlAttributes = [], htmlStyle = None,
      preBody = [Element ''HEAD'' [] None []],
      body = Element ''BODY'' [] None
        [Element ''DIV'' [(''data-source-path'', ''A'')] None
           [Element ''SPAN'' [(''data-source-path'', ''B'')] None
              [Element ''I'' [] None [Element ''B'' [(''data-source-path'', ''C'')] None []]]],
         Element ''LAMINAR-DEVTOOLS'' [] None []],
      postBody = []\<rparr>"

text \<open>A page with no marked element.\<close>

definition unmarkedPage :: document where
  "unmarkedPage =
     \<lparr>htmlAttributes = [], htmlStyle = None,
      preBody = [Element ''HEAD'' [] None []],
      body = Element ''BODY'' [] None
        [Element ''DIV'' [(''id'', ''app'')] None [Element ''P'' [] None []],
         Element ''LAMINAR-DEVTOOLS'' [] None []],
      postBody = []\<rparr>"

text \<open>A page whose root element carries the marker, with one marked element in the body.\<close>

definition rootMarkedPage :: document where
  "rootMarkedPage =
     \<lparr>htmlAttributes = [(''data-source-path'', ''index.html'')], htmlStyle = None,
      preBody = [Element ''HEAD'' [] None []],
      body = Element ''BODY'' [] None
        [Element ''DIV'' [(''data-source-path'', ''A'')] None [],
         Element ''LAMINAR-DEVTOOLS'' [] None []],
      postBody = []\<rparr>"

text \<open>A page whose body carries the marker, with one marked element in the body.\<close>

definition bodyMarkedPage :: document where
  "bodyMarkedPage =
     \<lparr>htmlAttributes = [], htmlStyle = None,
      preBody = [Element ''HEAD'' [] None []],
      body = Element ''BODY'' [(''data-source-path'', ''Main.scala'')] None
        [Element ''DIV'' [(''data-source-path'', ''A'')] None [],
         Element ''LAMINAR-DEVTOOLS'' [] None []],
      postBody = []\<rparr>"

text \<open>
  A page with inline styles: two marked elements without a \<^verbatim>\<open>style\<close> attribute, a marked
  one that declares only an outline offset, a marked one that declares a colour and an
  outline, and an unmarked one whose author wrote the outline in capitals.
\<close>

definition styledPage :: document where
  "styledPage =
     \<lparr>htmlAttributes = [], htmlStyle = None,
      preBody = [Element ''HEAD'' [] None []],
      body = Element ''BODY'' [] None
        [Element ''DIV'' [(''data-source-path'', ''A'')] None
           [Element ''SPAN'' [(''data-source-path'', ''B'')] None []],
         Element ''P'' [(''data-source-path'', ''D'')] (Some ''outline-offset: 4px'') [],
         Element ''DIV'' [(''data-source-path'', ''E'')]
           (Some ''color: red; outline: 1px solid red'') [],
         Element ''P'' [] (Some ''OUTLINE: 1px solid red'') []],
      postBody = []\<rparr>"

text \<open>
  The CSS object model on the \<^verbatim>\<open>style\<close> attributes that occur when a node of these pages
  is selected: removing an outline or an outline offset that is declared serialises
  the remaining declarations, removing one that is not declared leaves the attribute as
  it is, and the outline \<^verbatim>\<open>2px solid #007acc\<close> is serialised with its colour as
  \<^verbatim>\<open>rgb(0, 122, 204)\<close>. The order of the three parts of a serialised outline differs
  between browsers; the examples do not depend on it. Other attributes do not occur and
  are left as they are.
\<close>

definition exampleCSSOM :: CSSOM where
  "exampleCSSOM =
     \<lparr>setOutline = (\<lambda>v a.
        if v = '''' \<and> a = Some ''color: red; outline: 1px solid red'' then Some ''color: red;''
        else if v = ''2px solid #007acc'' \<and> a = None
          then Some ''outline: rgb(0, 122, 204) solid 2px;''
        else if v = ''2px solid #007acc'' \<and> a = Some ''color: red;''
          then Some ''color: red; outline: rgb(0, 122, 204) solid 2px;''
        else a),
      setOutlineOffset = (\<lambda>v a.
        if v = '''' \<and> a = Some ''outline-offset: 4px'' then Some ''''
        else if v = ''2px'' \<and> a = Some ''outline: rgb(0, 122, 204) solid 2px;''
          then Some ''outline: rgb(0, 122, 204) solid 2px; outline-offset: 2px;''
        else if v = ''2px'' \<and> a = Some ''color: red; outline: rgb(0, 122, 204) solid 2px;''
          then Some ''color: red; outline: rgb(0, 122, 204) solid 2px; outline-offset: 2px;''
        else a),
      getOutline = (\<lambda>a.
        if a = Some ''color: red; outline: 1px solid red'' \<or> a = Some ''OUTLINE: 1px solid red''
          then ''red solid 1px''
        else if a = Some ''outline: rgb(0, 122, 204) solid 2px;''
             \<or> a = Some ''outline: rgb(0, 122, 204) solid 2px; outline-offset: 2px;''
             \<or> a = Some ''color: red; outline: rgb(0, 122, 204) solid 2px;''
             \<or> a = Some ''color: red; outline: rgb(0, 122, 204) solid 2px; outline-offset: 2px;''
          then ''rgb(0, 122, 204) solid 2px''
        else '''')\<rparr>"

text \<open>
  \<^verbatim>\<open>toLowerCase\<close> on the tag names of these pages, which are made of ASCII characters:
  the letters \<^verbatim>\<open>A\<close> to \<^verbatim>\<open>Z\<close> are mapped to lower case and every other ASCII character is
  kept.
\<close>

definition asciiToLowerChar :: "char \<Rightarrow> char" where
  "asciiToLowerChar c =
     (let n = (of_char c :: nat) in if 65 \<le> n \<and> n \<le> 90 then char_of (n + 32) else c)"

definition asciiToLowerCase :: "string \<Rightarrow> string" where
  "asciiToLowerCase s = map asciiToLowerChar s"

text \<open>The panel when it is attached to a page: nothing scanned yet, nothing selected.\<close>

definition newPanel :: "document \<Rightarrow> world" where
  "newPanel d = \<lparr>doc = d, heap = [], componentTree = [], selectedNode = None\<rparr>"

section \<open>Document order\<close>

lemma strict_prefix_less: "strict_prefix q p \<Longrightarrow> q < (p :: nat list)"
proof -
  assume "strict_prefix q p"
  then obtain v where p: "p = q @ v" and v: "v \<noteq> []"
    by (auto simp: strict_prefix_def prefix_def)
  from v obtain a w where "v = a # w" by (cases v) auto
  then have "q < q @ v" by (induction q) auto
  with p show ?thesis by simp
qed

lemma less_append_left: "(p @ a < p @ b) = (a < (b :: nat list))"
  by (induction p) auto

lemma descendants_form:
  "x \<in> set (descendants p i cs) \<Longrightarrow> \<exists>j r. x = p @ j # r \<and> i \<le> j \<and> j < i + length cs"
proof (induction p i cs arbitrary: x rule: descendants.induct)
  case (1 p i)
  then show ?case by simp
next
  case (2 p i t a s ks cs)
  from "2.prems" consider "x = p @ [i]" | "x \<in> set (descendants (p @ [i]) 0 ks)"
    | "x \<in> set (descendants p (Suc i) cs)" by auto
  then show ?case
  proof cases
    case 1
    then show ?thesis by auto
  next
    case 2
    from "2.IH"(1)[OF this] obtain j r where "x = (p @ [i]) @ j # r" by blast
    then show ?thesis by auto
  next
    case 3
    from "2.IH"(2)[OF this] obtain j r where "x = p @ j # r" "Suc i \<le> j" "j < Suc i + length cs"
      by blast
    then show ?thesis by auto
  qed
qed

lemma descendants_sorted: "sorted_wrt (<) (descendants p i cs)"
proof (induction p i cs rule: descendants.induct)
  case (1 p i)
  then show ?case by simp
next
  case (2 p i t a s ks cs)
  have a: "p @ [i] < x" if "x \<in> set (descendants (p @ [i]) 0 ks)" for x
  proof -
    from descendants_form[OF that] obtain j r where "x = (p @ [i]) @ j # r" by blast
    then show ?thesis using less_append_left[of "p @ [i]" "[]" "j # r"] by simp
  qed
  have b: "p @ [i] < y \<and> (\<forall>x \<in> set (descendants (p @ [i]) 0 ks). x < y)"
    if "y \<in> set (descendants p (Suc i) cs)" for y
  proof -
    from descendants_form[OF that] obtain j r where y: "y = p @ j # r" and j: "Suc i \<le> j"
      by blast
    have 1: "p @ [i] < y" using y j less_append_left[of p "[i]" "j # r"] by simp
    have 2: "x < y" if "x \<in> set (descendants (p @ [i]) 0 ks)" for x
    proof -
      from descendants_form[OF that] obtain j' r' where "x = (p @ [i]) @ j' # r'" by blast
      then have "x = p @ (i # j' # r')" by simp
      then show ?thesis using y j less_append_left[of p "i # j' # r'" "j # r"] by simp
    qed
    from 1 2 show ?thesis by blast
  qed
  from 2 a b show ?case by (auto simp: sorted_wrt_append)
qed

section \<open>The nearest collected ancestor\<close>

lemma prefix_butlast_neq: "prefix x p \<Longrightarrow> x \<noteq> p \<Longrightarrow> prefix x (butlast p)"
  by (auto simp: prefix_def butlast_append)

lemma strict_prefix_parent: "strict_prefix x p \<longleftrightarrow> p \<noteq> [] \<and> prefix x (butlast p)"
proof
  assume "strict_prefix x p"
  then show "p \<noteq> [] \<and> prefix x (butlast p)"
    by (auto simp: strict_prefix_def intro: prefix_butlast_neq)
next
  assume a: "p \<noteq> [] \<and> prefix x (butlast p)"
  then obtain v where "butlast p = x @ v" by (auto simp: prefix_def)
  with a have "p = x @ (v @ [last p])" by (metis append_butlast_last_id append_assoc)
  then show "strict_prefix x p" by (metis append_is_Nil_conv not_Cons_self2 prefixI self_append_conv strict_prefix_def)
qed

lemma nearestIn_Some_gen:
  "nearestIn els a = Some q \<Longrightarrow>
     q \<in> set els \<and> (\<exists>p. a = Some p \<and> prefix q p \<and> (\<forall>x\<in>set els. prefix x p \<longrightarrow> prefix x q))"
proof (induction els a rule: nearestIn.induct)
  case (1 els)
  then show ?case by simp
next
  case (2 els p)
  show ?case
  proof (cases "p \<in> set els")
    case True
    with "2.prems" show ?thesis by auto
  next
    case False
    with "2.prems" have n: "nearestIn els (parentElement p) = Some q" by simp
    from "2.IH"[OF False n] obtain p' where q: "q \<in> set els" and p': "parentElement p = Some p'"
      and pre: "prefix q p'" and best: "\<forall>x\<in>set els. prefix x p' \<longrightarrow> prefix x q" by blast
    from p' have pne: "p \<noteq> []" and bl: "p' = butlast p"
      by (auto simp: parentElement_def split: if_splits)
    have "prefix q p" using pre bl pne strict_prefix_parent[of q p] by (simp add: strict_prefix_def)
    moreover have "prefix x q" if "x \<in> set els" "prefix x p" for x
    proof -
      from that False have "x \<noteq> p" by auto
      with that have "prefix x p'" using bl prefix_butlast_neq by blast
      with best that show ?thesis by blast
    qed
    ultimately show ?thesis using q by blast
  qed
qed

lemma nearestIn_None_gen:
  "nearestIn els (Some p) = None \<Longrightarrow> x \<in> set els \<Longrightarrow> \<not> prefix x p"
proof (induction els "Some p" arbitrary: p rule: nearestIn.induct)
  case (2 els p)
  from "2.prems" have notin: "p \<notin> set els" by (auto split: if_splits)
  with "2.prems" have n: "nearestIn els (parentElement p) = None" by simp
  show ?case
  proof (cases "p = []")
    case True
    with notin "2.prems" show ?thesis by auto
  next
    case False
    then have pe: "parentElement p = Some (butlast p)" by (simp add: parentElement_def)
    from "2.hyps"[OF notin pe] n pe "2.prems"(2) have "\<not> prefix x (butlast p)" by simp
    moreover have "x \<noteq> p" using notin "2.prems"(2) by auto
    ultimately show ?thesis using prefix_butlast_neq by blast
  qed
qed

lemma nearest_parent_Some:
  assumes "nearestIn els (parentElement p) = Some q"
  shows "q \<in> set els" and "strict_prefix q p"
    and "\<And>x. x \<in> set els \<Longrightarrow> strict_prefix x p \<Longrightarrow> prefix x q"
proof -
  from nearestIn_Some_gen[OF assms] obtain p' where q: "q \<in> set els"
    and p': "parentElement p = Some p'" and pre: "prefix q p'"
    and best: "\<forall>x\<in>set els. prefix x p' \<longrightarrow> prefix x q" by blast
  from p' have pne: "p \<noteq> []" and bl: "p' = butlast p"
    by (auto simp: parentElement_def split: if_splits)
  show "q \<in> set els" by (rule q)
  show "strict_prefix q p" using pre bl pne by (simp add: strict_prefix_parent)
  show "prefix x q" if "x \<in> set els" "strict_prefix x p" for x
    using that best bl by (simp add: strict_prefix_parent)
qed

lemma nearest_parent_None:
  assumes "nearestIn els (parentElement p) = None" and "x \<in> set els"
  shows "\<not> strict_prefix x p"
proof (cases "p = []")
  case True
  then show ?thesis by (simp add: strict_prefix_def)
next
  case False
  then have "parentElement p = Some (butlast p)" by (simp add: parentElement_def)
  with assms nearestIn_None_gen have "\<not> prefix x (butlast p)" by metis
  then show ?thesis by (simp add: strict_prefix_parent)
qed

section \<open>The heap and the roots that \<^verbatim>\<open>buildTree toLowerCase\<close> returns\<close>

lemma createNodes_eq:
  "createNodes toLowerCase d els h nodes = (h @ map (newNode toLowerCase d) els, nodes @ [length h..<length h + length els])"
proof (induction els arbitrary: h nodes)
  case Nil
  then show ?case by simp
next
  case (Cons el els)
  have "[length h..<length h + length (el # els)] = length h # [Suc (length h)..<Suc (length h) + length els]"
    using upt_conv_Cons[of "length h" "length h + length (el # els)"] by simp
  with Cons show ?case by simp
qed

lemma linkedHeap_0: "linkedHeap toLowerCase d h0 els 0 = h0 @ map (newNode toLowerCase d) els"
proof -
  have "map (linkedNode toLowerCase d els (length h0) 0) [0..<length els] = map (\<lambda>i. newNode toLowerCase d (els ! i)) [0..<length els]"
    by (rule map_cong) (simp_all add: linkedNode_def newNode_def)
  also have "\<dots> = map (newNode toLowerCase d) (map ((!) els) [0..<length els])" by simp
  also have "\<dots> = map (newNode toLowerCase d) els" by (simp only: map_nth)
  finally show ?thesis by (simp add: linkedHeap_def)
qed

lemma length_linkedHeap [simp]: "length (linkedHeap toLowerCase d h0 els k) = length h0 + length els"
  by (simp add: linkedHeap_def)

lemma linkedHeap_nth_new:
  "i < length els \<Longrightarrow> linkedHeap toLowerCase d h0 els k ! (length h0 + i) = linkedNode toLowerCase d els (length h0) k i"
  by (simp add: linkedHeap_def nth_append)

lemma linkedHeap_nth_old:
  "m < length h0 \<Longrightarrow> linkedHeap toLowerCase d h0 els k ! m = h0 ! m"
  by (simp add: linkedHeap_def nth_append)

lemma element_linkedNode [simp]: "element (linkedNode toLowerCase d els b k i) = els ! i"
  by (simp add: linkedNode_def newNode_def)

lemma find_node_None:
  assumes "q \<notin> set els"
  shows "find (\<lambda>node. element (linkedHeap toLowerCase d h0 els k ! node) = q)
           [length h0..<length h0 + length els] = None"
proof -
  have "element (linkedHeap toLowerCase d h0 els k ! node) \<noteq> q"
    if "node \<in> set [length h0..<length h0 + length els]" for node
  proof -
    from that obtain i where i: "node = length h0 + i" "i < length els"
      by (metis add.commute atLeastLessThan_iff le_Suc_ex less_diff_conv set_upt add_diff_cancel_left')
    then have "element (linkedHeap toLowerCase d h0 els k ! node) = els ! i"
      by (simp add: linkedHeap_nth_new)
    with assms i show ?thesis by (metis nth_mem)
  qed
  then show ?thesis by (simp add: find_None_iff)
qed

lemma find_node_Some:
  assumes "distinct els" and "i < length els"
  shows "find (\<lambda>node. element (linkedHeap toLowerCase d h0 els k ! node) = els ! i)
           [length h0..<length h0 + length els] = Some (length h0 + i)"
proof -
  have "\<not> element (linkedHeap toLowerCase d h0 els k ! ([length h0..<length h0 + length els] ! j)) = els ! i"
    if "j < i" for j
  proof -
    from that assms have "j < length els" by simp
    then have "element (linkedHeap toLowerCase d h0 els k ! ([length h0..<length h0 + length els] ! j)) = els ! j"
      by (simp add: linkedHeap_nth_new)
    moreover have "els ! j \<noteq> els ! i" using assms that \<open>j < length els\<close>
      by (simp add: nth_eq_iff_index_eq)
    ultimately show ?thesis by simp
  qed
  moreover have "element (linkedHeap toLowerCase d h0 els k ! ([length h0..<length h0 + length els] ! i)) = els ! i"
    using assms by (simp add: linkedHeap_nth_new)
  moreover have "[length h0..<length h0 + length els] ! i = length h0 + i" using assms by simp
  ultimately show ?thesis using assms
    by (auto simp: find_Some_iff intro!: exI[of _ i])
qed

lemma findParentLoop_None:
  "nearestIn els a = None \<Longrightarrow>
   findParentLoop (linkedHeap toLowerCase d h0 els k) a [length h0..<length h0 + length els] = None"
proof (induction els a rule: nearestIn.induct)
  case (1 els)
  then show ?case by simp
next
  case (2 els q)
  from "2.prems" have notin: "q \<notin> set els" by (auto split: if_splits)
  with "2.prems" have "nearestIn els (parentElement q) = None" by simp
  with "2.IH"[OF notin] show ?case by (simp add: find_node_None[OF notin])
qed

lemma findParentLoop_Some:
  "nearestIn els a = Some (els ! i) \<Longrightarrow> distinct els \<Longrightarrow> i < length els \<Longrightarrow>
   findParentLoop (linkedHeap toLowerCase d h0 els k) a [length h0..<length h0 + length els] = Some (length h0 + i)"
proof (induction els a rule: nearestIn.induct)
  case (1 els)
  then show ?case by simp
next
  case (2 els q)
  show ?case
  proof (cases "q \<in> set els")
    case True
    with "2.prems" have "q = els ! i" by simp
    with "2.prems" show ?thesis by (simp add: find_node_Some)
  next
    case False
    with "2.prems" have "nearestIn els (parentElement q) = Some (els ! i)" by simp
    from "2.IH"[OF False this "2.prems"(2,3)] show ?thesis
      by (simp add: find_node_None[OF False])
  qed
qed

lemma length_filter_disj:
  "(\<And>x. x \<in> set xs \<Longrightarrow> \<not> (P x \<and> Q x)) \<Longrightarrow>
   length (filter (\<lambda>x. P x \<or> Q x) xs) = length (filter P xs) + length (filter Q xs)"
  by (induction xs) auto

lemma length_filter_eq_one:
  "distinct xs \<Longrightarrow> q \<in> set xs \<Longrightarrow> length (filter (\<lambda>x. x = q) xs) = 1"
proof (induction xs)
  case Nil
  then show ?case by simp
next
  case (Cons a xs)
  show ?case
  proof (cases "a = q")
    case True
    with Cons.prems have "q \<notin> set xs" by simp
    then have "filter (\<lambda>x. x = q) xs = []" by (auto simp: filter_empty_conv)
    with True show ?thesis by simp
  next
    case False
    with Cons show ?thesis by simp
  qed
qed

lemma count_step:
  assumes n: "nearestIn els (parentElement p) = Some q" and d: "distinct els"
  shows "length [x \<leftarrow> els. strict_prefix x p] = Suc (length [x \<leftarrow> els. strict_prefix x q])"
proof -
  note np = nearest_parent_Some[OF n]
  have eq: "strict_prefix x p \<longleftrightarrow> strict_prefix x q \<or> x = q" if "x \<in> set els" for x
  proof
    assume "strict_prefix x p"
    with np(3)[OF that] have "prefix x q" by simp
    then show "strict_prefix x q \<or> x = q" by (auto simp: strict_prefix_def)
  next
    assume "strict_prefix x q \<or> x = q"
    then show "strict_prefix x p"
      using np(2) by (metis prefix_order.less_trans)
  qed
  have "[x \<leftarrow> els. strict_prefix x p] = [x \<leftarrow> els. strict_prefix x q \<or> x = q]"
    by (rule filter_cong) (simp_all add: eq)
  also have "length \<dots> = length [x \<leftarrow> els. strict_prefix x q] + length [x \<leftarrow> els. x = q]"
    by (rule length_filter_disj) (auto simp: strict_prefix_def)
  finally show ?thesis using length_filter_eq_one[OF d np(1)] by simp
qed

lemma sorted_index_less:
  assumes "sorted_wrt (<) els" "i < length els" "k < length els" "els ! i < (els ! k :: nat list)"
  shows "i < k"
proof (rule ccontr)
  assume "\<not> i < k"
  then consider "i = k" | "k < i" by linarith
  then show False
  proof cases
    case 1
    with assms show ?thesis by simp
  next
    case 2
    from sorted_wrt_nth_less[OF assms(1) 2 assms(2)] assms(4) show ?thesis by simp
  qed
qed

lemma sorted_distinct_paths: "sorted_wrt (<) (els :: nat list list) \<Longrightarrow> distinct els"
  by (simp add: strict_sorted_iff)

lemma linkedNode_Suc:
  "linkedNode toLowerCase d els b (Suc k) i =
     (linkedNode toLowerCase d els b k i)
       \<lparr>children := children (linkedNode toLowerCase d els b k i) @
           (if nearestIn els (parentElement (els ! k)) = Some (els ! i) then [b + k] else []),
        depth := (if i = k then length [x \<leftarrow> els. strict_prefix x (els ! k)]
                  else depth (linkedNode toLowerCase d els b k i))\<rparr>"
  by (auto simp: linkedNode_def)

lemma linkedHeap_Suc_root:
  assumes par: "nearestIn els (parentElement (els ! k)) = None" and k: "k < length els"
  shows "linkedHeap toLowerCase d h0 els (Suc k) = linkedHeap toLowerCase d h0 els k"
proof -
  have "[x \<leftarrow> els. strict_prefix x (els ! k)] = []"
    using nearest_parent_None[OF par] by (simp add: filter_empty_conv)
  then have "linkedNode toLowerCase d els (length h0) (Suc k) i = linkedNode toLowerCase d els (length h0) k i" for i
    by (simp add: linkedNode_Suc par) (simp add: linkedNode_def)
  then show ?thesis by (simp add: linkedHeap_def)
qed

lemma linkedHeap_Suc_child:
  assumes par: "nearestIn els (parentElement (els ! k)) = Some (els ! i)"
    and d: "distinct els" and k: "k < length els" and i: "i < k"
  shows "linkedHeap toLowerCase d h0 els (Suc k) =
    (let h = linkedHeap toLowerCase d h0 els k; parent = length h0 + i; node = length h0 + k;
         h1 = h[parent := (h ! parent)\<lparr>children := children (h ! parent) @ [node]\<rparr>]
     in h1[node := (h1 ! node)\<lparr>depth := depth (h1 ! parent) + 1\<rparr>])"
    (is "?L = ?R")
proof (rule nth_equalityI)
  show "length ?L = length ?R" by (simp add: Let_def)
next
  fix m assume "m < length ?L"
  then have m: "m < length h0 + length els" by simp
  from i k have il: "i < length els" by simp
  have cnt: "length [x \<leftarrow> els. strict_prefix x (els ! k)] = Suc (length [x \<leftarrow> els. strict_prefix x (els ! i)])"
    by (rule count_step[OF par d])
  have depi: "depth (linkedNode toLowerCase d els (length h0) k i) = length [x \<leftarrow> els. strict_prefix x (els ! i)]"
    using i by (simp add: linkedNode_def)
  show "?L ! m = ?R ! m"
  proof (cases "m < length h0")
    case True
    then show ?thesis by (simp add: Let_def linkedHeap_nth_old)
  next
    case False
    then obtain j where j: "m = length h0 + j" "j < length els"
      using m by (metis add_diff_inverse_nat nat_add_left_cancel_less)
    have sel: "(els ! i = els ! j) = (i = j)" using d il j by (simp add: nth_eq_iff_index_eq)
    consider "j = k" | "j = i" | "j \<noteq> k" "j \<noteq> i" by blast
    then show ?thesis
    proof cases
      case 1
      with i have ne: "els ! i \<noteq> els ! j" using sel by simp
      from 1 i show ?thesis using j il k ne
        by (simp add: Let_def linkedHeap_nth_new linkedNode_Suc par cnt depi)
    next
      case 2
      with i show ?thesis using j il k
        by (simp add: Let_def linkedHeap_nth_new linkedNode_Suc par)
    next
      case 3
      then have ne: "els ! i \<noteq> els ! j" using sel by simp
      from 3 show ?thesis using j il k ne
        by (simp add: Let_def linkedHeap_nth_new linkedNode_Suc par)
    qed
  qed
qed

lemma linkNodes_linked:
  assumes s: "sorted_wrt (<) els" and k: "k \<le> length els"
  shows "linkNodes [length h0..<length h0 + length els] [length h0 + k..<length h0 + length els]
           (linkedHeap toLowerCase d h0 els k) (linkedRoots els (length h0) k)
         = (linkedHeap toLowerCase d h0 els (length els), linkedRoots els (length h0) (length els))"
  using k
proof (induction k rule: inc_induct)
  case base
  then show ?case by simp
next
  case (step k)
  let ?b = "length h0"
  let ?nodes = "[?b..<?b + length els]"
  note d = sorted_distinct_paths[OF s]
  have rest: "[?b + k..<?b + length els] = (?b + k) # [?b + Suc k..<?b + length els]"
    using step.hyps upt_conv_Cons[of "?b + k" "?b + length els"] by simp
  have el: "element (linkedHeap toLowerCase d h0 els k ! (?b + k)) = els ! k"
    using step.hyps by (simp add: linkedHeap_nth_new)
  show ?case
  proof (cases "nearestIn els (parentElement (els ! k))")
    case None
    have fp: "findParentNode (linkedHeap toLowerCase d h0 els k) (els ! k) ?nodes = None"
      unfolding findParentNode_def by (rule findParentLoop_None[OF None])
    have r: "linkedRoots els ?b (Suc k) = linkedRoots els ?b k @ [?b + k]"
      by (simp add: linkedRoots_def None)
    show ?thesis
      using step.IH
      by (simp add: rest el fp r linkedHeap_Suc_root[OF None step.hyps(2)])
  next
    case (Some q)
    note np = nearest_parent_Some[OF Some]
    from np(1) obtain i where i: "i < length els" "q = els ! i" by (auto simp: in_set_conv_nth)
    have "els ! i < els ! k" using np(2) i strict_prefix_less by simp
    then have ik: "i < k" using sorted_index_less[OF s i(1) step.hyps(2)] by simp
    have par: "nearestIn els (parentElement (els ! k)) = Some (els ! i)" using Some i by simp
    have fp: "findParentNode (linkedHeap toLowerCase d h0 els k) (els ! k) ?nodes = Some (?b + i)"
      unfolding findParentNode_def by (rule findParentLoop_Some[OF par d i(1)])
    have r: "linkedRoots els ?b (Suc k) = linkedRoots els ?b k"
      by (simp add: linkedRoots_def par)
    show ?thesis
      using step.IH linkedHeap_Suc_child[OF par d step.hyps(2) ik, of toLowerCase d h0]
      by (simp add: rest el fp r Let_def)
  qed
qed

lemma buildTree_linked:
  assumes "sorted_wrt (<) els"
  shows "buildTree toLowerCase d h0 els = (linkedHeap toLowerCase d h0 els (length els), linkedRoots els (length h0) (length els))"
proof -
  have "linkedRoots els (length h0) 0 = []" by (simp add: linkedRoots_def)
  with linkNodes_linked[OF assms, of 0 h0 toLowerCase d] show ?thesis
    by (simp add: buildTree_def createNodes_eq linkedHeap_0)
qed

section \<open>The nodes of the built forest, in document order\<close>

lemma lex_diverge:
  "a < b \<Longrightarrow> \<not> prefix a b \<Longrightarrow> prefix a x \<Longrightarrow> prefix b y \<Longrightarrow> x < (y :: nat list)"
proof (induction a arbitrary: b x y)
  case Nil
  then show ?case by simp
next
  case (Cons a1 a')
  from Cons.prems(1) obtain b1 b' where b: "b = b1 # b'" by (cases b) auto
  from Cons.prems(3) obtain x' where x: "x = a1 # x'" and px: "prefix a' x'"
    by (cases x) auto
  from Cons.prems(4) b obtain y' where y: "y = b1 # y'" and py: "prefix b' y'"
    by (cases y) auto
  from Cons.prems(1) b consider "a1 < b1" | "a1 = b1" "a' < b'" by auto
  then show ?case
  proof cases
    case 1
    with x y show ?thesis by simp
  next
    case 2
    with Cons.prems(2) b have "\<not> prefix a' b'" by simp
    from Cons.IH[OF 2(2) this px py] 2 x y show ?thesis by simp
  qed
qed

lemma sorted_wrt_concat_map:
  "sorted_wrt (\<lambda>c c'. \<forall>x\<in>set (f c). \<forall>y\<in>set (f c'). P x y) cs \<Longrightarrow>
   (\<And>c. c \<in> set cs \<Longrightarrow> sorted_wrt P (f c)) \<Longrightarrow> sorted_wrt P (concat (map f cs))"
  by (induction cs) (auto simp: sorted_wrt_append)

lemma siblings_incomparable:
  assumes c: "nearestIn els (parentElement (els ! c)) = a"
    and c': "nearestIn els (parentElement (els ! c')) = a"
    and lt: "c < length els" and ne: "els ! c \<noteq> els ! c'"
  shows "\<not> prefix (els ! c) (els ! c')"
proof
  assume "prefix (els ! c) (els ! c')"
  with ne have sp: "strict_prefix (els ! c) (els ! c')" by (simp add: strict_prefix_def)
  have mem: "els ! c \<in> set els" using lt by simp
  show False
  proof (cases a)
    case None
    with c' nearest_parent_None[OF _ mem] sp show False by blast
  next
    case (Some q)
    from nearest_parent_Some(3)[OF c'[unfolded Some] mem sp] have "prefix (els ! c) q" .
    moreover from nearest_parent_Some(2)[OF c[unfolded Some]] have "strict_prefix q (els ! c)" .
    ultimately show False by (metis prefix_order.leD)
  qed
qed

lemma child_on_path:
  assumes a: "a = None \<or> (\<exists>q \<in> set els. a = Some q)"
  shows "x < length els \<Longrightarrow> (case a of None \<Rightarrow> True | Some q \<Rightarrow> strict_prefix q (els ! x)) \<Longrightarrow>
         \<exists>j < length els. nearestIn els (parentElement (els ! j)) = a \<and> prefix (els ! j) (els ! x)"
proof (induction "length (els ! x)" arbitrary: x rule: less_induct)
  case less
  show ?case
  proof (cases "nearestIn els (parentElement (els ! x)) = a")
    case True
    with less.prems(1) show ?thesis by auto
  next
    case False
    show ?thesis
    proof (cases "nearestIn els (parentElement (els ! x))")
      case None
      with False obtain q where q: "a = Some q" "q \<in> set els" using a by auto
      with less.prems(2) have "strict_prefix q (els ! x)" by simp
      with nearest_parent_None[OF None q(2)] show ?thesis by simp
    next
      case (Some q')
      note np = nearest_parent_Some[OF Some]
      from np(1) obtain m where m: "m < length els" "q' = els ! m" by (auto simp: in_set_conv_nth)
      have shorter: "length (els ! m) < length (els ! x)"
        using np(2) m by (metis prefix_length_less)
      have below: "case a of None \<Rightarrow> True | Some q \<Rightarrow> strict_prefix q (els ! m)"
      proof (cases a)
        case None
        then show ?thesis by simp
      next
        case (Some q)
        with a have qin: "q \<in> set els" by auto
        from Some less.prems(2) have "strict_prefix q (els ! x)" by simp
        from np(3)[OF qin this] have "prefix q q'" .
        moreover have "q \<noteq> q'" using False Some \<open>nearestIn els (parentElement (els ! x)) = Some q'\<close> by auto
        ultimately show ?thesis using Some m by (simp add: strict_prefix_def)
      qed
      from less.hyps[OF shorter m(1) below] obtain j where
        "j < length els" "nearestIn els (parentElement (els ! j)) = a" "prefix (els ! j) (els ! m)"
        by blast
      moreover have "prefix (els ! m) (els ! x)" using np(2) m by (simp add: strict_prefix_def)
      ultimately show ?thesis by (metis prefix_order.order_trans)
    qed
  qed
qed

lemma concat_subtrees:
  assumes s: "sorted_wrt (<) els" and a: "a = None \<or> (\<exists>q \<in> set els. a = Some q)"
  shows "concat (map (subtreeIdx els) (childIdx els a)) = belowIdx els a"
proof (rule strict_sorted_equal)
  show "sorted_wrt (<) (belowIdx els a)"
    by (simp add: belowIdx_def sorted_wrt_filter)
next
  note d = sorted_distinct_paths[OF s]
  have blocks: "\<forall>x\<in>set (subtreeIdx els c). \<forall>y\<in>set (subtreeIdx els c'). x < y"
    if "c \<in> set (childIdx els a)" "c' \<in> set (childIdx els a)" "c < c'" for c c'
  proof (intro ballI)
    fix x y assume x: "x \<in> set (subtreeIdx els c)" and y: "y \<in> set (subtreeIdx els c')"
    from that have c: "c < length els" "nearestIn els (parentElement (els ! c)) = a"
      and c': "c' < length els" "nearestIn els (parentElement (els ! c')) = a"
      by (auto simp: childIdx_def)
    have lt: "els ! c < els ! c'" using sorted_wrt_nth_less[OF s that(3) c'(1)] .
    then have ne: "els ! c \<noteq> els ! c'" by simp
    have np: "\<not> prefix (els ! c) (els ! c')"
      by (rule siblings_incomparable[OF c(2) c'(2) c(1) ne])
    from x y have xy: "x < length els" "prefix (els ! c) (els ! x)"
      "y < length els" "prefix (els ! c') (els ! y)"
      by (auto simp: subtreeIdx_def)
    from lex_diverge[OF lt np xy(2) xy(4)] have "els ! x < els ! y" .
    then show "x < y" by (rule sorted_index_less[OF s xy(1) xy(3)])
  qed
  have "sorted_wrt (<) (childIdx els a)" by (simp add: childIdx_def sorted_wrt_filter)
  then have "sorted_wrt (\<lambda>c c'. \<forall>x\<in>set (subtreeIdx els c). \<forall>y\<in>set (subtreeIdx els c'). x < y)
               (childIdx els a)"
    by (rule sorted_wrt_mono_rel[rotated]) (rule blocks)
  moreover have "sorted_wrt (<) (subtreeIdx els c)" for c
    by (simp add: subtreeIdx_def sorted_wrt_filter)
  ultimately show "sorted_wrt (<) (concat (map (subtreeIdx els) (childIdx els a)))"
    by (intro sorted_wrt_concat_map)
next
  show "set (concat (map (subtreeIdx els) (childIdx els a))) = set (belowIdx els a)"
  proof (intro equalityI subsetI)
    fix x assume "x \<in> set (belowIdx els a)"
    then have x: "x < length els" "case a of None \<Rightarrow> True | Some q \<Rightarrow> strict_prefix q (els ! x)"
      by (auto simp: belowIdx_def)
    from child_on_path[OF a x] obtain j where "j < length els"
      "nearestIn els (parentElement (els ! j)) = a" "prefix (els ! j) (els ! x)" by blast
    with x(1) show "x \<in> set (concat (map (subtreeIdx els) (childIdx els a)))"
      by (auto simp: childIdx_def subtreeIdx_def)
  next
    fix x assume "x \<in> set (concat (map (subtreeIdx els) (childIdx els a)))"
    then obtain j where j: "j < length els" "nearestIn els (parentElement (els ! j)) = a"
      and x: "x < length els" "prefix (els ! j) (els ! x)"
      by (auto simp: childIdx_def subtreeIdx_def)
    have "case a of None \<Rightarrow> True | Some q \<Rightarrow> strict_prefix q (els ! x)"
    proof (cases a)
      case None
      then show ?thesis by simp
    next
      case (Some q)
      from nearest_parent_Some(2)[OF j(2)[unfolded Some]] x(2) have "strict_prefix q (els ! x)"
        by (metis prefix_order.less_le_trans)
      with Some show ?thesis by simp
    qed
    with x(1) show "x \<in> set (belowIdx els a)" by (simp add: belowIdx_def)
  qed
qed

lemma subtreeIdx_split:
  assumes s: "sorted_wrt (<) els" and i: "i < length els"
  shows "subtreeIdx els i = i # belowIdx els (Some (els ! i))"
proof (rule strict_sorted_equal)
  show "sorted_wrt (<) (subtreeIdx els i)" by (simp add: subtreeIdx_def sorted_wrt_filter)
next
  have "i < x" if "x \<in> set (belowIdx els (Some (els ! i)))" for x
  proof -
    from that have x: "x < length els" "strict_prefix (els ! i) (els ! x)"
      by (auto simp: belowIdx_def)
    from strict_prefix_less[OF x(2)] show ?thesis by (rule sorted_index_less[OF s i x(1)])
  qed
  moreover have "sorted_wrt (<) (belowIdx els (Some (els ! i)))"
    by (simp add: belowIdx_def sorted_wrt_filter)
  ultimately show "sorted_wrt (<) (i # belowIdx els (Some (els ! i)))" by simp
next
  note d = sorted_distinct_paths[OF s]
  have "prefix (els ! i) (els ! x) \<longleftrightarrow> x = i \<or> strict_prefix (els ! i) (els ! x)"
    if "x < length els" for x
    using that i d by (auto simp: strict_prefix_def nth_eq_iff_index_eq)
  then show "set (subtreeIdx els i) = set (i # belowIdx els (Some (els ! i)))"
    using i by (auto simp: belowIdx_def subtreeIdx_def)
qed

lemma map_plus_upt: "map ((+) b) [0..<n] = [b..<b + n]"
  by (rule nth_equalityI) simp_all

lemma those_map_Some:
  "(\<And>x. x \<in> set xs \<Longrightarrow> g x = Some (g' x)) \<Longrightarrow> those (map g xs) = Some (map g' xs)"
  by (induction xs) auto

lemma those_map_option:
  "those (map (\<lambda>x. map_option g (k x)) xs) = map_option (map g) (those (map k xs))"
proof (induction xs)
  case Nil
  then show ?case by simp
next
  case (Cons x xs)
  then show ?case
    by (cases "k x"; cases "those (map k xs)") simp_all
qed

lemma children_linkedHeap:
  "i < length els \<Longrightarrow>
   children (linkedHeap toLowerCase d h0 els (length els) ! (length h0 + i)) =
     map ((+) (length h0)) (childIdx els (Some (els ! i)))"
  by (simp add: linkedHeap_nth_new linkedNode_def childIdx_def)

lemma nodesBelow_linked:
  assumes s: "sorted_wrt (<) els"
  shows "i < length els \<Longrightarrow> length els - i \<le> fuel \<Longrightarrow>
     nodesBelow fuel (linkedHeap toLowerCase d h0 els (length els)) (length h0 + i) =
       Some (map ((+) (length h0)) (subtreeIdx els i))"
proof (induction fuel arbitrary: i)
  case 0
  then show ?case by simp
next
  case (Suc fuel)
  let ?h = "linkedHeap toLowerCase d h0 els (length els)"
  let ?b = "length h0"
  let ?ch = "childIdx els (Some (els ! i))"
  have child: "nodesBelow fuel ?h (?b + j) = Some (map ((+) ?b) (subtreeIdx els j))"
    if "j \<in> set ?ch" for j
  proof -
    from that have j: "j < length els" "nearestIn els (parentElement (els ! j)) = Some (els ! i)"
      by (auto simp: childIdx_def)
    from strict_prefix_less[OF nearest_parent_Some(2)[OF j(2)]]
    have "i < j" by (rule sorted_index_less[OF s Suc.prems(1) j(1)])
    with Suc.prems j(1) have "length els - j \<le> fuel" by simp
    from Suc.IH[OF j(1) this] show ?thesis .
  qed
  have "those (map (nodesBelow fuel ?h) (map ((+) ?b) ?ch))
        = those (map (\<lambda>j. nodesBelow fuel ?h (?b + j)) ?ch)"
    by (simp add: comp_def)
  also have "\<dots> = Some (map (\<lambda>j. map ((+) ?b) (subtreeIdx els j)) ?ch)"
    by (rule those_map_Some) (rule child)
  finally have th: "those (map (nodesBelow fuel ?h) (children (?h ! (?b + i))))
        = Some (map (\<lambda>j. map ((+) ?b) (subtreeIdx els j)) ?ch)"
    using Suc.prems(1) by (simp add: children_linkedHeap)
  have "concat (map (\<lambda>j. map ((+) ?b) (subtreeIdx els j)) ?ch)
        = map ((+) ?b) (concat (map (subtreeIdx els) ?ch))"
    by (simp add: map_concat comp_def)
  also have "\<dots> = map ((+) ?b) (belowIdx els (Some (els ! i)))"
    using concat_subtrees[OF s, of "Some (els ! i)"] Suc.prems(1) by simp
  finally show ?case
    using th subtreeIdx_split[OF s Suc.prems(1)] by simp
qed

lemma forestNodes_linked:
  assumes s: "sorted_wrt (<) els" and f: "length els \<le> fuel"
  shows "forestNodes fuel (linkedHeap toLowerCase d h0 els (length els)) (linkedRoots els (length h0) (length els))
         = Some [length h0..<length h0 + length els]"
proof -
  let ?h = "linkedHeap toLowerCase d h0 els (length els)"
  let ?b = "length h0"
  let ?ch = "childIdx els None"
  have root: "nodesBelow fuel ?h (?b + j) = Some (map ((+) ?b) (subtreeIdx els j))"
    if "j \<in> set ?ch" for j
  proof -
    from that have j: "j < length els" by (auto simp: childIdx_def)
    with f have "length els - j \<le> fuel" by simp
    from nodesBelow_linked[OF s j this] show ?thesis .
  qed
  have r: "linkedRoots els ?b (length els) = map ((+) ?b) ?ch"
    by (simp add: linkedRoots_def childIdx_def)
  have "those (map (nodesBelow fuel ?h) (map ((+) ?b) ?ch))
        = those (map (\<lambda>j. nodesBelow fuel ?h (?b + j)) ?ch)"
    by (simp add: comp_def)
  also have "\<dots> = Some (map (\<lambda>j. map ((+) ?b) (subtreeIdx els j)) ?ch)"
    by (rule those_map_Some) (rule root)
  finally have th: "those (map (nodesBelow fuel ?h) (linkedRoots els ?b (length els)))
        = Some (map (\<lambda>j. map ((+) ?b) (subtreeIdx els j)) ?ch)"
    by (simp add: r)
  have "concat (map (\<lambda>j. map ((+) ?b) (subtreeIdx els j)) ?ch)
        = map ((+) ?b) (concat (map (subtreeIdx els) ?ch))"
    by (simp add: map_concat comp_def)
  also have "\<dots> = map ((+) ?b) (belowIdx els None)"
    using concat_subtrees[OF s, of None] by simp
  also have "belowIdx els None = [0..<length els]" by (simp add: belowIdx_def)
  also have "map ((+) ?b) [0..<length els] = [?b..<?b + length els]"
    by (rule map_plus_upt)
  finally show ?thesis using th by (simp add: forestNodes_def)
qed

section \<open>Rendering follows the forest\<close>

lemma renderTreeNode_nodesBelow:
  "renderTreeNode fuel w node = map_option (map (treeNodeLine w)) (nodesBelow fuel (heap w) node)"
proof (induction fuel arbitrary: node)
  case 0
  then show ?case by simp
next
  case (Suc fuel)
  have fe: "renderTreeNode fuel w
            = (\<lambda>x. map_option (map (treeNodeLine w)) (nodesBelow fuel (heap w) x))"
    by (rule ext) (rule Suc.IH)
  have "those (map (renderTreeNode fuel w) (children (heap w ! node)))
        = map_option (map (map (treeNodeLine w)))
            (those (map (nodesBelow fuel (heap w)) (children (heap w ! node))))"
    unfolding fe by (rule those_map_option)
  then show ?case
    by (cases "those (map (nodesBelow fuel (heap w)) (children (heap w ! node)))")
      (simp_all add: map_concat)
qed

lemma renderTree_forestNodes:
  "renderTree fuel w = map_option (map (treeNodeLine w)) (forestNodes fuel (heap w) (componentTree w))"
proof -
  have fe: "renderTreeNode fuel w
            = (\<lambda>x. map_option (map (treeNodeLine w)) (nodesBelow fuel (heap w) x))"
    by (rule ext) (rule renderTreeNode_nodesBelow)
  have "those (map (renderTreeNode fuel w) (componentTree w))
        = map_option (map (map (treeNodeLine w)))
            (those (map (nodesBelow fuel (heap w)) (componentTree w)))"
    unfolding fe by (rule those_map_option)
  then show ?thesis
    by (cases "those (map (nodesBelow fuel (heap w)) (componentTree w))")
      (simp_all add: renderTree_def forestNodes_def map_concat)
qed

section \<open>What the walker collects\<close>

lemma resolve_append:
  "resolve e (a @ b) = (case resolve e a of None \<Rightarrow> None | Some e' \<Rightarrow> resolve e' b)"
  by (induction e a rule: resolve.induct) auto

lemma set_descendants:
  "x \<in> set (descendants p i cs) \<longleftrightarrow>
     (\<exists>j r. x = p @ (i + j) # r \<and> j < length cs \<and> resolve (cs ! j) r \<noteq> None)"
proof (induction p i cs arbitrary: x rule: descendants.induct)
  case (1 p i)
  then show ?case by simp
next
  case (2 p i t a s ks cs)
  let ?c = "Element t a s ks"
  show ?case
  proof
    assume "x \<in> set (descendants p i (?c # cs))"
    then consider "x = p @ [i]" | "x \<in> set (descendants (p @ [i]) 0 ks)"
      | "x \<in> set (descendants p (Suc i) cs)" by auto
    then show "\<exists>j r. x = p @ (i + j) # r \<and> j < length (?c # cs) \<and> resolve ((?c # cs) ! j) r \<noteq> None"
    proof cases
      case 1
      then have "x = p @ (i + 0) # [] \<and> 0 < length (?c # cs) \<and> resolve ((?c # cs) ! 0) [] \<noteq> None"
        by simp
      then show ?thesis by blast
    next
      case 2
      with "2.IH"(1) obtain j r where "x = (p @ [i]) @ (0 + j) # r" "j < length ks"
        "resolve (ks ! j) r \<noteq> None" by blast
      then have "x = p @ (i + 0) # (j # r) \<and> 0 < length (?c # cs)
                 \<and> resolve ((?c # cs) ! 0) (j # r) \<noteq> None" by simp
      then show ?thesis by blast
    next
      case 3
      with "2.IH"(2) obtain j r where "x = p @ (Suc i + j) # r" "j < length cs"
        "resolve (cs ! j) r \<noteq> None" by blast
      then have "x = p @ (i + Suc j) # r \<and> Suc j < length (?c # cs)
                 \<and> resolve ((?c # cs) ! Suc j) r \<noteq> None" by simp
      then show ?thesis by blast
    qed
  next
    assume "\<exists>j r. x = p @ (i + j) # r \<and> j < length (?c # cs) \<and> resolve ((?c # cs) ! j) r \<noteq> None"
    then obtain j r where x: "x = p @ (i + j) # r" and j: "j < length (?c # cs)"
      and r: "resolve ((?c # cs) ! j) r \<noteq> None" by blast
    show "x \<in> set (descendants p i (?c # cs))"
    proof (cases j)
      case 0
      show ?thesis
      proof (cases r)
        case Nil
        with 0 x show ?thesis by simp
      next
        case (Cons j' r')
        with 0 r have "j' < length ks" "resolve (ks ! j') r' \<noteq> None"
          by (auto split: if_splits)
        moreover have "x = (p @ [i]) @ (0 + j') # r'" using x 0 Cons by simp
        ultimately have "x \<in> set (descendants (p @ [i]) 0 ks)" using "2.IH"(1) by blast
        then show ?thesis by simp
      qed
    next
      case (Suc j'')
      with x j r have "x = p @ (Suc i + j'') # r" "j'' < length cs" "resolve (cs ! j'') r \<noteq> None"
        by simp_all
      then have "x \<in> set (descendants p (Suc i) cs)" using "2.IH"(2) by blast
      then show ?thesis by simp
    qed
  qed
qed

lemma set_elementsBelow:
  "set (elementsBelow d root) = {x. strict_prefix root x \<and> resolve (documentElement d) x \<noteq> None}"
proof (cases "resolve (documentElement d) root")
  case None
  have "resolve (documentElement d) x = None" if "strict_prefix root x" for x
  proof -
    from that obtain v where "x = root @ v" by (auto simp: strict_prefix_def prefix_def)
    with None show ?thesis by (simp add: resolve_append)
  qed
  with None show ?thesis by (auto simp: elementsBelow_def)
next
  case (Some e)
  have "x \<in> set (descendants root 0 (childElements e)) \<longleftrightarrow>
        strict_prefix root x \<and> resolve (documentElement d) x \<noteq> None" for x
  proof
    assume "x \<in> set (descendants root 0 (childElements e))"
    then obtain j r where x: "x = root @ j # r" and j: "j < length (childElements e)"
      and r: "resolve (childElements e ! j) r \<noteq> None"
      by (auto simp: set_descendants)
    from x have "strict_prefix root x" by (simp add: strict_prefix_def)
    moreover have "resolve (documentElement d) x \<noteq> None"
      using x j r Some by (simp add: resolve_append)
    ultimately show "strict_prefix root x \<and> resolve (documentElement d) x \<noteq> None" by simp
  next
    assume a: "strict_prefix root x \<and> resolve (documentElement d) x \<noteq> None"
    then obtain v where v: "x = root @ v" "v \<noteq> []"
      by (auto simp: strict_prefix_def prefix_def)
    then obtain j r where jr: "v = j # r" by (cases v) auto
    from a v jr Some have "j < length (childElements e) \<and> resolve (childElements e ! j) r \<noteq> None"
      by (auto simp: resolve_append split: if_splits)
    with v jr show "x \<in> set (descendants root 0 (childElements e))"
      by (auto simp: set_descendants)
  qed
  with Some show ?thesis by (auto simp: elementsBelow_def)
qed

lemma set_findElements:
  "set (findElementsWithSourcePath d root) =
     {x. strict_prefix root x \<and> hasAttribute d x ''data-source-path''}"
  by (auto simp: findElementsWithSourcePath_def acceptNode_def set_elementsBelow hasAttribute_def
      split: option.splits if_splits)

lemma set_allElements: "set (allElements d) = {x. resolve (documentElement d) x \<noteq> None}"
  by (auto simp: allElements_def set_elementsBelow strict_prefix_def)

lemma elementsBelow_sorted: "sorted_wrt (<) (elementsBelow d root)"
  by (simp add: elementsBelow_def descendants_sorted split: option.splits)

lemma findElements_sorted: "sorted_wrt (<) (findElementsWithSourcePath d root)"
  by (simp add: findElementsWithSourcePath_def sorted_wrt_filter elementsBelow_sorted)

lemma scanComponentTree_eq:
  "scanComponentTree toLowerCase w =
     (let els = findElementsWithSourcePath (doc w) (document_body (doc w))
      in w\<lparr>heap := linkedHeap toLowerCase (doc w) (heap w) els (length els),
           componentTree := linkedRoots els (length (heap w)) (length els)\<rparr>)"
  by (simp add: scanComponentTree_def Let_def buildTree_linked[OF findElements_sorted])

section \<open>Marked ancestors and tree parents\<close>

lemma set_properAncestors: "set (properAncestors el) = {q. strict_prefix q el}"
proof (intro equalityI subsetI)
  fix q assume "q \<in> set (properAncestors el)"
  then obtain k where k: "k < length el" "q = take k el" by (auto simp: properAncestors_def)
  then have "prefix q el" "length q < length el" by (simp_all add: take_is_prefix)
  then show "q \<in> {q. strict_prefix q el}" by (auto simp: strict_prefix_def)
next
  fix q assume "q \<in> {q. strict_prefix q el}"
  then have sp: "strict_prefix q el" by simp
  then obtain v where v: "el = q @ v" "v \<noteq> []" by (auto simp: strict_prefix_def prefix_def)
  then have "length q < length el" "q = take (length q) el" by simp_all
  then show "q \<in> set (properAncestors el)" by (auto simp: properAncestors_def)
qed

lemma distinct_properAncestors: "distinct (properAncestors el)"
proof -
  have "inj_on (\<lambda>k. take k el) (set [0..<length el])"
  proof (rule inj_onI)
    fix x y assume "x \<in> set [0..<length el]" "y \<in> set [0..<length el]" "take x el = take y el"
    then have "length (take x el) = length (take y el)" "x < length el" "y < length el" by simp_all
    then show "x = y" by simp
  qed
  then show ?thesis by (simp add: properAncestors_def distinct_map)
qed

lemma count_marked_ancestors:
  assumes "sorted_wrt (<) (findElementsWithSourcePath d root)"
  shows "length [x \<leftarrow> findElementsWithSourcePath d root. strict_prefix x el]
         = length [q \<leftarrow> markedAncestors d el. strict_prefix root q]"
proof -
  let ?A = "[x \<leftarrow> findElementsWithSourcePath d root. strict_prefix x el]"
  let ?B = "[q \<leftarrow> markedAncestors d el. strict_prefix root q]"
  have dA: "distinct ?A" using sorted_distinct_paths[OF assms] by simp
  have dB: "distinct ?B" by (simp add: markedAncestors_def distinct_properAncestors)
  have "set ?A = set ?B"
    by (auto simp: set_findElements markedAncestors_def set_properAncestors)
  then have "card (set ?A) = card (set ?B)" by simp
  then show ?thesis using dA dB by (simp only: distinct_card)
qed

lemma nearest_iff:
  assumes "distinct els"
  shows "nearestIn els (parentElement p) = Some q \<longleftrightarrow>
         q \<in> set els \<and> strict_prefix q p \<and> (\<forall>x\<in>set els. strict_prefix x p \<longrightarrow> prefix x q)"
proof
  assume "nearestIn els (parentElement p) = Some q"
  from nearest_parent_Some[OF this]
  show "q \<in> set els \<and> strict_prefix q p \<and> (\<forall>x\<in>set els. strict_prefix x p \<longrightarrow> prefix x q)"
    by blast
next
  assume a: "q \<in> set els \<and> strict_prefix q p \<and> (\<forall>x\<in>set els. strict_prefix x p \<longrightarrow> prefix x q)"
  show "nearestIn els (parentElement p) = Some q"
  proof (cases "nearestIn els (parentElement p)")
    case None
    from nearest_parent_None[OF None] a show ?thesis by blast
  next
    case (Some q')
    note np = nearest_parent_Some[OF Some]
    from a np(1,2) have "prefix q' q" by blast
    moreover from np(3) a have "prefix q q'" by blast
    ultimately have "q' = q" by (metis prefix_order.antisym)
    with Some show ?thesis by simp
  qed
qed

lemma nearest_None_iff:
  "nearestIn els (parentElement p) = None \<longleftrightarrow> \<not> (\<exists>q\<in>set els. strict_prefix q p)"
proof
  assume "nearestIn els (parentElement p) = None"
  from nearest_parent_None[OF this] show "\<not> (\<exists>q\<in>set els. strict_prefix q p)" by blast
next
  assume a: "\<not> (\<exists>q\<in>set els. strict_prefix q p)"
  show "nearestIn els (parentElement p) = None"
  proof (cases "nearestIn els (parentElement p)")
    case None
    then show ?thesis .
  next
    case (Some q')
    from nearest_parent_Some(1,2)[OF Some] a show ?thesis by blast
  qed
qed

lemma depth_linkedHeap:
  "i < length els \<Longrightarrow>
   depth (linkedHeap toLowerCase d h0 els (length els) ! (length h0 + i))
     = length [x \<leftarrow> els. strict_prefix x (els ! i)]"
  by (simp add: linkedHeap_nth_new linkedNode_def)

lemma element_linkedHeap:
  "i < length els \<Longrightarrow> element (linkedHeap toLowerCase d h0 els k ! (length h0 + i)) = els ! i"
  by (simp add: linkedHeap_nth_new)

lemma mem_linkedRoots:
  "i < length els \<Longrightarrow>
   (length h0 + i \<in> set (linkedRoots els (length h0) (length els)))
     = (nearestIn els (parentElement (els ! i)) = None)"
  by (auto simp: linkedRoots_def)

lemma mem_children_linkedHeap:
  "i < length els \<Longrightarrow> k < length els \<Longrightarrow>
   (length h0 + i \<in> set (children (linkedHeap toLowerCase d h0 els (length els) ! (length h0 + k))))
     = (nearestIn els (parentElement (els ! i)) = Some (els ! k))"
  by (auto simp: children_linkedHeap childIdx_def)

lemma length_repeat: "length (repeat s n) = n * length s"
  by (induction n) (simp_all add: repeat_def)

lemma root_depth_zero:
  assumes "i < length els" "nearestIn els (parentElement (els ! i)) = None"
  shows "length [x \<leftarrow> els. strict_prefix x (els ! i)] = 0"
  using nearest_parent_None[OF assms(2)] by (simp add: filter_empty_conv)

section \<open>Values of forests\<close>

lemma those_None_iff: "those (map g xs) = None \<longleftrightarrow> (\<exists>x\<in>set xs. g x = None)"
proof (induction xs)
  case Nil
  then show ?case by simp
next
  case (Cons x xs)
  then show ?case by (cases "g x"; cases "those (map g xs)") auto
qed

lemma snapshotOf_None_iff: "snapshotOf fuel h node = None \<longleftrightarrow> nodesBelow fuel h node = None"
proof (induction fuel arbitrary: node)
  case 0
  then show ?case by simp
next
  case (Suc fuel)
  then show ?case by (simp add: those_None_iff)
qed

lemma forestSnapshot_None_iff:
  "forestSnapshot fuel h roots = None \<longleftrightarrow> forestNodes fuel h roots = None"
  by (simp add: forestSnapshot_def forestNodes_def those_None_iff snapshotOf_None_iff)

lemma snapshotOf_shift:
  assumes H: "\<And>i. i < length els \<Longrightarrow> H ! (b + i) = linkedNode toLowerCase d els b (length els) i"
    and H': "\<And>i. i < length els \<Longrightarrow> H' ! (b' + i) = linkedNode toLowerCase d els b' (length els) i"
  shows "i < length els \<Longrightarrow> snapshotOf fuel H (b + i) = snapshotOf fuel H' (b' + i)"
proof (induction fuel arbitrary: i)
  case 0
  then show ?case by simp
next
  case (Suc fuel)
  let ?ch = "childIdx els (Some (els ! i))"
  have ch: "children (H ! (b + i)) = map ((+) b) ?ch" "children (H' ! (b' + i)) = map ((+) b') ?ch"
    using Suc.prems by (simp_all add: H H' linkedNode_def childIdx_def)
  have "map (snapshotOf fuel H) (map ((+) b) ?ch) = map (snapshotOf fuel H') (map ((+) b') ?ch)"
    using Suc.IH by (simp add: childIdx_def)
  then have "those (map (snapshotOf fuel H) (children (H ! (b + i))))
      = those (map (snapshotOf fuel H') (children (H' ! (b' + i))))"
    by (simp only: ch)
  moreover have "element (H ! (b + i)) = element (H' ! (b' + i))"
    "sourcePath (H ! (b + i)) = sourcePath (H' ! (b' + i))"
    "tagName (H ! (b + i)) = tagName (H' ! (b' + i))"
    "depth (H ! (b + i)) = depth (H' ! (b' + i))"
    using Suc.prems by (simp_all add: H H' linkedNode_def)
  ultimately show ?case by simp
qed

lemma forestSnapshot_shift:
  assumes H: "\<And>i. i < length els \<Longrightarrow> H ! (b + i) = linkedNode toLowerCase d els b (length els) i"
    and H': "\<And>i. i < length els \<Longrightarrow> H' ! (b' + i) = linkedNode toLowerCase d els b' (length els) i"
  shows "forestSnapshot fuel H (linkedRoots els b (length els))
         = forestSnapshot fuel H' (linkedRoots els b' (length els))"
proof -
  have "map (snapshotOf fuel H) (linkedRoots els b (length els))
        = map (snapshotOf fuel H') (linkedRoots els b' (length els))"
    using snapshotOf_shift[OF H H'] by (simp add: linkedRoots_def)
  then show ?thesis by (simp add: forestSnapshot_def)
qed

section \<open>The scanned world\<close>

lemma in_upt_offset:
  "node \<in> set [b..<b + n] \<Longrightarrow> \<exists>i<n. node = b + i"
  by (metis add.commute atLeastLessThan_iff le_Suc_ex less_diff_conv set_upt add_diff_cancel_left')

lemma renderTree_scan:
  "renderTree (length (findElementsWithSourcePath (doc w) (document_body (doc w))))
     (scanComponentTree toLowerCase w)
   = Some (map (treeNodeLine (scanComponentTree toLowerCase w))
       [length (heap w)..<
        length (heap w) + length (findElementsWithSourcePath (doc w) (document_body (doc w)))])"
  using forestNodes_linked[OF findElements_sorted order_refl,
      of "doc w" "document_body (doc w)" toLowerCase "doc w" "heap w"]
  by (simp add: renderTree_forestNodes) (simp add: scanComponentTree_eq Let_def)

lemma forestNodes_scan:
  "forestNodes (length (findElementsWithSourcePath (doc w) (document_body (doc w))))
     (heap (scanComponentTree toLowerCase w)) (componentTree (scanComponentTree toLowerCase w))
   = Some [length (heap w)..<
        length (heap w) + length (findElementsWithSourcePath (doc w) (document_body (doc w)))]"
  using forestNodes_linked[OF findElements_sorted order_refl,
      of "doc w" "document_body (doc w)" toLowerCase "doc w" "heap w"]
  by (simp add: scanComponentTree_eq Let_def)

lemma children_elements_sorted:
  assumes s: "sorted_wrt (<) els" and i: "i < length els"
  shows "sorted_wrt (<) (map (\<lambda>c. element (linkedHeap toLowerCase d h0 els (length els) ! c))
           (children (linkedHeap toLowerCase d h0 els (length els) ! (length h0 + i))))"
proof -
  let ?ch = "childIdx els (Some (els ! i))"
  have idx: "sorted_wrt (<) ?ch" by (simp add: childIdx_def sorted_wrt_filter)
  have "sorted_wrt (\<lambda>j j'. els ! j < els ! j') ?ch"
  proof (rule sorted_wrt_mono_rel[OF _ idx])
    fix j j' assume "j \<in> set ?ch" "j' \<in> set ?ch" "j < j'"
    then have "j' < length els" by (simp add: childIdx_def)
    from sorted_wrt_nth_less[OF s \<open>j < j'\<close> this] show "els ! j < els ! j'" .
  qed
  then have "sorted_wrt (<) (map ((!) els) ?ch)" by (simp add: sorted_wrt_map)
  moreover have "map (\<lambda>c. element (linkedHeap toLowerCase d h0 els (length els) ! c)) (map ((+) (length h0)) ?ch)
      = map ((!) els) ?ch"
    by (simp add: childIdx_def linkedHeap_nth_new)
  ultimately show ?thesis by (simp only: children_linkedHeap[OF i])
qed

section \<open>Inline styles under selection\<close>

lemma updateStyle_shape:
  "elTagName (updateStyle g p e) = elTagName e"
  "attributes (updateStyle g p e) = attributes e"
  "length (childElements (updateStyle g p e)) = length (childElements e)"
  by (cases p; cases e; simp)+

lemma style_resolve_updateStyle:
  "map_option styleAttribute (resolve (updateStyle g p e) q)
     = (if q = p then map_option g (map_option styleAttribute (resolve e q))
        else map_option styleAttribute (resolve e q))"
proof (induction g p e arbitrary: q rule: updateStyle.induct)
  case (1 g t a s cs)
  then show ?case by (cases q) simp_all
next
  case (2 g i p t a s cs)
  show ?case
  proof (cases q)
    case Nil
    then show ?thesis by simp
  next
    case (Cons j r)
    show ?thesis
    proof (cases "i < length cs")
      case True
      note i = True
      show ?thesis
      proof (cases "j = i")
        case True
        with i Cons "2.IH"[OF i, of r] show ?thesis by simp
      next
        case False
        with i Cons show ?thesis by simp
      qed
    next
      case False
      with Cons show ?thesis by auto
    qed
  qed
qed

lemma shape_resolve_updateStyle:
  "map_option (\<lambda>e. (elTagName e, attributes e, length (childElements e)))
     (resolve (updateStyle g p e) q)
   = map_option (\<lambda>e. (elTagName e, attributes e, length (childElements e))) (resolve e q)"
proof (induction g p e arbitrary: q rule: updateStyle.induct)
  case (1 g t a s cs)
  then show ?case by (cases q) simp_all
next
  case (2 g i p t a s cs)
  show ?case
  proof (cases q)
    case Nil
    then show ?thesis by simp
  next
    case (Cons j r)
    show ?thesis
    proof (cases "i < length cs")
      case True
      note i = True
      show ?thesis
      proof (cases "j = i")
        case True
        with i Cons "2.IH"[OF i, of r] show ?thesis by simp
      next
        case False
        with i Cons show ?thesis by simp
      qed
    next
      case False
      with Cons show ?thesis by auto
    qed
  qed
qed

lemma documentElement_withDocumentElement:
  assumes "elTagName e = ''HTML''" "length (preBody d) < length (childElements e)"
  shows "documentElement (withDocumentElement d e) = e"
proof -
  have "take (length (preBody d)) (childElements e) @
        childElements e ! length (preBody d) # drop (Suc (length (preBody d))) (childElements e)
        = childElements e"
    using assms(2) by (simp add: id_take_nth_drop[symmetric])
  moreover have "min (length (childElements e)) (length (preBody d)) = length (preBody d)"
    using assms(2) by simp
  ultimately show ?thesis using assms(1)
    by (cases e) (simp add: documentElement_def withDocumentElement_def Let_def)
qed

lemma documentElement_updateStyleAttribute:
  "documentElement (updateStyleAttribute g el d) = updateStyle g el (documentElement d)"
  unfolding updateStyleAttribute_def
  by (rule documentElement_withDocumentElement)
    (simp_all add: updateStyle_shape, simp_all add: documentElement_def)

lemma styleAttributeOf_update:
  "styleAttributeOf (updateStyleAttribute g el d) q
     = (if q = el then map_option g (styleAttributeOf d q) else styleAttributeOf d q)"
  by (simp add: styleAttributeOf_def documentElement_updateStyleAttribute style_resolve_updateStyle)

lemma shapeOf_update: "shapeOf (updateStyleAttribute g el d) q = shapeOf d q"
  by (simp add: shapeOf_def documentElement_updateStyleAttribute shape_resolve_updateStyle)

lemma styleAttributeOf_fold:
  assumes "distinct els"
  shows "styleAttributeOf
           (fold (\<lambda>el d. updateStyleAttribute g2 el (updateStyleAttribute g1 el d)) els d) q
     = (if q \<in> set els then map_option (\<lambda>a. g2 (g1 a)) (styleAttributeOf d q)
        else styleAttributeOf d q)"
  using assms
proof (induction els arbitrary: d)
  case Nil
  then show ?case by simp
next
  case (Cons x xs)
  let ?d' = "updateStyleAttribute g2 x (updateStyleAttribute g1 x d)"
  have step: "styleAttributeOf ?d' q
      = (if q = x then map_option (\<lambda>a. g2 (g1 a)) (styleAttributeOf d q) else styleAttributeOf d q)"
    by (simp add: styleAttributeOf_update option.map_comp comp_def)
  from Cons.prems have "distinct xs" "x \<notin> set xs" by simp_all
  with Cons.IH[of ?d'] step show ?case by auto
qed

lemma shapeOf_fold:
  "shapeOf (fold (\<lambda>el d. updateStyleAttribute g2 el (updateStyleAttribute g1 el d)) els d) q
     = shapeOf d q"
  by (induction els arbitrary: d) (simp_all add: shapeOf_update)

lemma mem_querySelectorAll_outline:
  "q \<in> set (querySelectorAll_outline d) \<longleftrightarrow> matchesOutlineSelector d q"
  by (auto simp: querySelectorAll_outline_def set_allElements matchesOutlineSelector_def
      split: option.splits)

lemma distinct_querySelectorAll_outline: "distinct (querySelectorAll_outline d)"
proof -
  have "sorted_wrt (<) (elementsBelow d [])" by (rule elementsBelow_sorted)
  moreover have "[] < x" if "x \<in> set (elementsBelow d [])" for x
  proof -
    from that have "x \<noteq> []" by (auto simp: set_elementsBelow)
    then show ?thesis by (cases x) simp_all
  qed
  ultimately have "sorted_wrt (<) (allElements d)" by (simp add: allElements_def)
  then have "distinct (allElements d)" by (rule sorted_distinct_paths)
  then show ?thesis by (simp add: querySelectorAll_outline_def)
qed

lemma styleAttributeOf_clearHighlights:
  "styleAttributeOf (doc (clearHighlights css w)) q
     = map_option
         (\<lambda>a. if attributeContains a ''outline''
              then setOutlineOffset css '''' (setOutline css '''' a) else a)
         (styleAttributeOf (doc w) q)"
proof -
  have "styleAttributeOf (doc (clearHighlights css w)) q
        = (if matchesOutlineSelector (doc w) q
           then map_option (\<lambda>a. setOutlineOffset css '''' (setOutline css '''' a))
                  (styleAttributeOf (doc w) q)
           else styleAttributeOf (doc w) q)"
    by (simp add: clearHighlights_def Let_def
        styleAttributeOf_fold[OF distinct_querySelectorAll_outline] mem_querySelectorAll_outline)
  then show ?thesis
    by (cases "resolve (documentElement (doc w)) q")
      (simp_all add: matchesOutlineSelector_def styleAttributeOf_def)
qed

lemma shapeOf_clearHighlights: "shapeOf (doc (clearHighlights css w)) q = shapeOf (doc w) q"
  by (simp add: clearHighlights_def Let_def shapeOf_fold)

lemma styleAttributeOf_selectNode:
  "styleAttributeOf (doc (selectNode css w node)) q
     = map_option
         (\<lambda>a. let cleared = (if attributeContains a ''outline''
                             then setOutlineOffset css '''' (setOutline css '''' a) else a)
              in if q = element (heap w ! node)
                 then setOutlineOffset css ''2px'' (setOutline css ''2px solid #007acc'' cleared)
                 else cleared)
         (styleAttributeOf (doc w) q)"
proof -
  let ?w1 = "w\<lparr>selectedNode := Some node\<rparr>"
  let ?w2 = "clearHighlights css ?w1"
  let ?el = "element (heap w ! node)"
  have h: "heap ?w2 = heap w" by (simp add: clearHighlights_def Let_def)
  have c: "styleAttributeOf (doc ?w2) q
      = map_option
          (\<lambda>a. if attributeContains a ''outline''
               then setOutlineOffset css '''' (setOutline css '''' a) else a)
          (styleAttributeOf (doc w) q)"
    using styleAttributeOf_clearHighlights[of css ?w1 q] by simp
  have "doc (selectNode css w node)
      = updateStyleAttribute (setOutlineOffset css ''2px'') ?el
          (updateStyleAttribute (setOutline css ''2px solid #007acc'') ?el (doc ?w2))"
    by (simp add: selectNode_def Let_def h)
  then have "styleAttributeOf (doc (selectNode css w node)) q
      = (if q = ?el
         then map_option (\<lambda>a. setOutlineOffset css ''2px'' (setOutline css ''2px solid #007acc'' a))
                (styleAttributeOf (doc ?w2) q)
         else styleAttributeOf (doc ?w2) q)"
    by (simp add: styleAttributeOf_update option.map_comp comp_def)
  then show ?thesis
    unfolding c by (cases "q = ?el"; cases "styleAttributeOf (doc w) q") (simp_all add: Let_def)
qed

lemma shapeOf_selectNode: "shapeOf (doc (selectNode css w node)) q = shapeOf (doc w) q"
proof -
  have "shapeOf (doc (clearHighlights css (w\<lparr>selectedNode := Some node\<rparr>))) q = shapeOf (doc w) q"
    using shapeOf_clearHighlights[of css "w\<lparr>selectedNode := Some node\<rparr>" q] by simp
  then show ?thesis by (simp add: selectNode_def Let_def shapeOf_update)
qed

section \<open>The claims\<close>

text \<open>
  C1. For the list of marked elements that the walker collects (in document order, below
  any root), the forest built by \<^verbatim>\<open>buildTree toLowerCase\<close> holds exactly one node per element:
  listing the root nodes and everything reachable through \<open>children\<close>, every occurrence
  counted, gives exactly the new objects, one after the other, and their elements are
  the collected elements, none twice.
\<close>
theorem buildTree_one_node_per_element:
  "case buildTree toLowerCase d h (findElementsWithSourcePath d root) of
     (h', rootNodes) \<Rightarrow>
       forestNodes (length (findElementsWithSourcePath d root)) h' rootNodes
         = Some [length h..<length h + length (findElementsWithSourcePath d root)] \<and>
       map (\<lambda>node. element (h' ! node)) [length h..<length h + length (findElementsWithSourcePath d root)]
         = findElementsWithSourcePath d root \<and>
       distinct (findElementsWithSourcePath d root)"
proof -
  let ?els = "findElementsWithSourcePath d root"
  note s = findElements_sorted[of d root]
  have "map (\<lambda>node. element (linkedHeap toLowerCase d h ?els (length ?els) ! node))
          [length h..<length h + length ?els] = ?els"
    by (rule nth_equalityI) (simp_all add: linkedHeap_nth_new)
  then show ?thesis
    using forestNodes_linked[OF s order_refl, of toLowerCase d h] sorted_distinct_paths[OF s]
    by (simp add: buildTree_linked[OF s])
qed

text \<open>
  C2 (as amended). For every node of the forest produced by a scan, \<open>depth\<close> is the number
  of marked elements strictly below \<^verbatim>\<open>document.body\<close> that are strict ancestors of the
  node's element; every root has depth 0. The marker on the body itself or on the
  root element is not counted: the walker never collects them.
\<close>
theorem depth_counts_marked_ancestors_below_body:
  "\<exists>ns. forestNodes (length (findElementsWithSourcePath (doc w) (document_body (doc w))))
           (heap (scanComponentTree toLowerCase w)) (componentTree (scanComponentTree toLowerCase w)) = Some ns \<and>
     (\<forall>node \<in> set ns.
        depth (heap (scanComponentTree toLowerCase w) ! node)
          = length [q \<leftarrow> markedAncestors (doc w) (element (heap (scanComponentTree toLowerCase w) ! node)).
                     strict_prefix (document_body (doc w)) q]) \<and>
     (\<forall>node \<in> set (componentTree (scanComponentTree toLowerCase w)).
        depth (heap (scanComponentTree toLowerCase w) ! node) = 0)"
proof -
  let ?els = "findElementsWithSourcePath (doc w) (document_body (doc w))"
  let ?b = "length (heap w)"
  let ?H = "linkedHeap toLowerCase (doc w) (heap w) ?els (length ?els)"
  note s = findElements_sorted[of "doc w" "document_body (doc w)"]
  have d: "depth (?H ! node)
           = length [q \<leftarrow> markedAncestors (doc w) (element (?H ! node)).
                      strict_prefix (document_body (doc w)) q]"
    if "node \<in> set [?b..<?b + length ?els]" for node
  proof -
    from that obtain i where i: "node = ?b + i" "i < length ?els"
      by (metis add.commute atLeastLessThan_iff le_Suc_ex less_diff_conv set_upt add_diff_cancel_left')
    then show ?thesis
      by (simp add: depth_linkedHeap element_linkedHeap count_marked_ancestors[OF s])
  qed
  have r: "depth (?H ! node) = 0" if "node \<in> set (linkedRoots ?els ?b (length ?els))" for node
  proof -
    from that obtain i where i: "node = ?b + i" "i < length ?els"
      "nearestIn ?els (parentElement (?els ! i)) = None"
      by (auto simp: linkedRoots_def)
    then show ?thesis by (simp add: depth_linkedHeap root_depth_zero)
  qed
  show ?thesis
    using forestNodes_linked[OF s order_refl, of toLowerCase "doc w" "heap w"] d r
    by (simp add: scanComponentTree_eq Let_def)
qed

theorem depth_counts_marked_ancestors_below_body_witness:
  "forestNodes 3 (heap (scanComponentTree asciiToLowerCase (newPanel scenarioPage)))
     (componentTree (scanComponentTree asciiToLowerCase (newPanel scenarioPage))) = Some [0, 1, 2] \<and>
   map (\<lambda>node. depth (heap (scanComponentTree asciiToLowerCase (newPanel scenarioPage)) ! node)) [0, 1, 2] = [0, 1, 2] \<and>
   markedAncestors scenarioPage (element (heap (scanComponentTree asciiToLowerCase (newPanel scenarioPage)) ! 2))
     = [[1, 0], [1, 0, 0]] \<and>
   componentTree (scanComponentTree asciiToLowerCase (newPanel scenarioPage)) = [0]"
proof -
  let ?w = "scanComponentTree asciiToLowerCase (newPanel scenarioPage)"
  have n: "length (findElementsWithSourcePath (doc (newPanel scenarioPage))
             (document_body (doc (newPanel scenarioPage)))) = 3"
    by code_simp
  have f: "forestNodes 3 (heap ?w) (componentTree ?w) = Some [0, 1, 2]" by code_simp
  have m: "map (\<lambda>node. length [q \<leftarrow> markedAncestors (doc (newPanel scenarioPage)) (element (heap ?w ! node)).
                     strict_prefix (document_body (doc (newPanel scenarioPage))) q]) [0, 1, 2] = [0, 1, 2]"
    by code_simp
  have a: "markedAncestors scenarioPage (element (heap ?w ! 2)) = [[1, 0], [1, 0, 0]]" by code_simp
  have c: "componentTree ?w = [0]" by code_simp
  from depth_counts_marked_ancestors_below_body[of "newPanel scenarioPage" asciiToLowerCase]
  have "\<forall>node \<in> set [0, 1, 2].
        depth (heap ?w ! node)
          = length [q \<leftarrow> markedAncestors (doc (newPanel scenarioPage)) (element (heap ?w ! node)).
                     strict_prefix (document_body (doc (newPanel scenarioPage))) q]"
    unfolding n f by simp
  then have "map (\<lambda>node. depth (heap ?w ! node)) [0, 1, 2]
      = map (\<lambda>node. length [q \<leftarrow> markedAncestors (doc (newPanel scenarioPage)) (element (heap ?w ! node)).
                     strict_prefix (document_body (doc (newPanel scenarioPage))) q]) [0, 1, 2]"
    by simp
  with m f a c show ?thesis by simp
qed

theorem depth_ignores_marker_above_body_counterexample:
  "forestNodes 1 (heap (scanComponentTree asciiToLowerCase (newPanel rootMarkedPage)))
     (componentTree (scanComponentTree asciiToLowerCase (newPanel rootMarkedPage))) = Some [0] \<and>
   depth (heap (scanComponentTree asciiToLowerCase (newPanel rootMarkedPage)) ! 0) = 0 \<and>
   markedAncestors rootMarkedPage (element (heap (scanComponentTree asciiToLowerCase (newPanel rootMarkedPage)) ! 0))
     = [[]] \<and>
   depth (heap (scanComponentTree asciiToLowerCase (newPanel rootMarkedPage)) ! 0) \<noteq>
     length (markedAncestors rootMarkedPage
               (element (heap (scanComponentTree asciiToLowerCase (newPanel rootMarkedPage)) ! 0))) \<and>
   forestNodes 1 (heap (scanComponentTree asciiToLowerCase (newPanel bodyMarkedPage)))
     (componentTree (scanComponentTree asciiToLowerCase (newPanel bodyMarkedPage))) = Some [0] \<and>
   depth (heap (scanComponentTree asciiToLowerCase (newPanel bodyMarkedPage)) ! 0) = 0 \<and>
   markedAncestors bodyMarkedPage (element (heap (scanComponentTree asciiToLowerCase (newPanel bodyMarkedPage)) ! 0))
     = [[1]] \<and>
   depth (heap (scanComponentTree asciiToLowerCase (newPanel bodyMarkedPage)) ! 0) \<noteq>
     length (markedAncestors bodyMarkedPage
               (element (heap (scanComponentTree asciiToLowerCase (newPanel bodyMarkedPage)) ! 0)))"
  by code_simp

text \<open>
  C3. In the tree built from the collected list \<open>L\<close>, the node of the \<open>i\<close>-th element is a
  child of the node of the \<open>k\<close>-th element exactly when that element is the nearest
  ancestor in \<open>L\<close>: a strict ancestor, in \<open>L\<close>, with every other strict ancestor in \<open>L\<close>
  at or above it (unmarked elements in between are skipped). The node is in the root
  list exactly when no strict ancestor of its element is in \<open>L\<close>.
\<close>
theorem parent_is_nearest_collected_ancestor:
  "case buildTree toLowerCase d h (findElementsWithSourcePath d root) of
     (h', rootNodes) \<Rightarrow>
       (\<forall>i < length (findElementsWithSourcePath d root).
          element (h' ! (length h + i)) = findElementsWithSourcePath d root ! i \<and>
          (length h + i \<in> set rootNodes \<longleftrightarrow>
             \<not> (\<exists>q \<in> set (findElementsWithSourcePath d root).
                   strict_prefix q (findElementsWithSourcePath d root ! i))) \<and>
          (\<forall>k < length (findElementsWithSourcePath d root).
             length h + i \<in> set (children (h' ! (length h + k))) \<longleftrightarrow>
               strict_prefix (findElementsWithSourcePath d root ! k)
                             (findElementsWithSourcePath d root ! i) \<and>
               (\<forall>q \<in> set (findElementsWithSourcePath d root).
                  strict_prefix q (findElementsWithSourcePath d root ! i) \<longrightarrow>
                  prefix q (findElementsWithSourcePath d root ! k))))"
proof -
  let ?els = "findElementsWithSourcePath d root"
  note s = findElements_sorted[of d root]
  note dist = sorted_distinct_paths[OF s]
  have "length h + i \<in> set (children (linkedHeap toLowerCase d h ?els (length ?els) ! (length h + k))) \<longleftrightarrow>
          strict_prefix (?els ! k) (?els ! i) \<and>
          (\<forall>q \<in> set ?els. strict_prefix q (?els ! i) \<longrightarrow> prefix q (?els ! k))"
    if "i < length ?els" "k < length ?els" for i k
    using that by (simp add: mem_children_linkedHeap nearest_iff[OF dist])
  then show ?thesis
    by (simp add: buildTree_linked[OF s] element_linkedHeap mem_linkedRoots nearest_None_iff)
qed

theorem parent_is_nearest_collected_ancestor_witness:
  "findElementsWithSourcePath scenarioPage (document_body scenarioPage)
     = [[1, 0], [1, 0, 0], [1, 0, 0, 0, 0]] \<and>
   element (fst (buildTree asciiToLowerCase scenarioPage [] [[1, 0], [1, 0, 0], [1, 0, 0, 0, 0]]) ! 2) = [1, 0, 0, 0, 0] \<and>
   2 \<in> set (children (fst (buildTree asciiToLowerCase scenarioPage [] [[1, 0], [1, 0, 0], [1, 0, 0, 0, 0]]) ! 1)) \<and>
   2 \<notin> set (children (fst (buildTree asciiToLowerCase scenarioPage [] [[1, 0], [1, 0, 0], [1, 0, 0, 0, 0]]) ! 0)) \<and>
   2 \<notin> set (snd (buildTree asciiToLowerCase scenarioPage [] [[1, 0], [1, 0, 0], [1, 0, 0, 0, 0]])) \<and>
   0 \<in> set (snd (buildTree asciiToLowerCase scenarioPage [] [[1, 0], [1, 0, 0], [1, 0, 0, 0, 0]]))"
proof -
  have els: "findElementsWithSourcePath scenarioPage (document_body scenarioPage)
     = [[1, 0], [1, 0, 0], [1, 0, 0, 0, 0]]"
    by code_simp
  from parent_is_nearest_collected_ancestor[where toLowerCase = asciiToLowerCase
      and d = scenarioPage and h = "[]"
      and root = "document_body scenarioPage"] els
  show ?thesis
    by (simp add: case_prod_unfold All_less_Suc numeral_3_eq_3 numeral_2_eq_2 strict_prefix_def)
qed

text \<open>
  C4. Scanning twice with no change of the DOM in between gives two forests with the
  same value (same shape, same elements, tag names, source paths and depths) that share
  no object: every node of the second forest is a new object, and the second scan
  leaves the objects of the first forest as they were.
\<close>
theorem rescan_same_value_new_objects:
  "\<exists>forest ns1 ns2.
     forestSnapshot (length (findElementsWithSourcePath (doc w) (document_body (doc w))))
       (heap (scanComponentTree toLowerCase w)) (componentTree (scanComponentTree toLowerCase w)) = Some forest \<and>
     forestSnapshot (length (findElementsWithSourcePath (doc w) (document_body (doc w))))
       (heap (scanComponentTree toLowerCase (scanComponentTree toLowerCase w)))
       (componentTree (scanComponentTree toLowerCase (scanComponentTree toLowerCase w))) = Some forest \<and>
     forestNodes (length (findElementsWithSourcePath (doc w) (document_body (doc w))))
       (heap (scanComponentTree toLowerCase w)) (componentTree (scanComponentTree toLowerCase w)) = Some ns1 \<and>
     forestNodes (length (findElementsWithSourcePath (doc w) (document_body (doc w))))
       (heap (scanComponentTree toLowerCase (scanComponentTree toLowerCase w)))
       (componentTree (scanComponentTree toLowerCase (scanComponentTree toLowerCase w))) = Some ns2 \<and>
     set ns1 \<inter> set ns2 = {} \<and>
     take (length (heap (scanComponentTree toLowerCase w))) (heap (scanComponentTree toLowerCase (scanComponentTree toLowerCase w)))
       = heap (scanComponentTree toLowerCase w)"
proof -
  let ?els = "findElementsWithSourcePath (doc w) (document_body (doc w))"
  let ?n = "length ?els"
  let ?b1 = "length (heap w)"
  let ?H1 = "linkedHeap toLowerCase (doc w) (heap w) ?els ?n"
  let ?H2 = "linkedHeap toLowerCase (doc w) ?H1 ?els ?n"
  let ?R1 = "linkedRoots ?els ?b1 ?n"
  let ?R2 = "linkedRoots ?els (?b1 + ?n) ?n"
  note s = findElements_sorted[of "doc w" "document_body (doc w)"]
  have w1: "scanComponentTree toLowerCase w = w\<lparr>heap := ?H1, componentTree := ?R1\<rparr>"
    by (simp add: scanComponentTree_eq Let_def)
  have w2: "scanComponentTree toLowerCase (scanComponentTree toLowerCase w) = w\<lparr>heap := ?H2, componentTree := ?R2\<rparr>"
    by (simp add: w1) (simp add: scanComponentTree_eq Let_def)
  have n1: "forestNodes ?n ?H1 ?R1 = Some [?b1..<?b1 + ?n]"
    by (rule forestNodes_linked[OF s order_refl])
  have n2: "forestNodes ?n ?H2 ?R2 = Some [?b1 + ?n..<?b1 + ?n + ?n]"
    using forestNodes_linked[OF s order_refl, of toLowerCase "doc w" ?H1] by simp
  from n1 obtain forest where f1: "forestSnapshot ?n ?H1 ?R1 = Some forest"
    using forestSnapshot_None_iff[of ?n ?H1 ?R1] by (cases "forestSnapshot ?n ?H1 ?R1") auto
  have "forestSnapshot ?n ?H1 ?R1 = forestSnapshot ?n ?H2 ?R2"
  proof (rule forestSnapshot_shift)
    show "?H1 ! (?b1 + i) = linkedNode toLowerCase (doc w) ?els ?b1 ?n i" if "i < ?n" for i
      using that by (simp add: linkedHeap_nth_new)
    show "?H2 ! (?b1 + ?n + i) = linkedNode toLowerCase (doc w) ?els (?b1 + ?n) ?n i" if "i < ?n" for i
      using that linkedHeap_nth_new[of i ?els toLowerCase "doc w" ?H1 ?n] by simp
  qed
  with f1 have f2: "forestSnapshot ?n ?H2 ?R2 = Some forest" by simp
  have disj: "set [?b1..<?b1 + ?n] \<inter> set [?b1 + ?n..<?b1 + ?n + ?n] = {}" by auto
  have frame: "take (length ?H1) ?H2 = ?H1" by (simp add: linkedHeap_def)
  have sel2: "heap (scanComponentTree toLowerCase (scanComponentTree toLowerCase w)) = ?H2"
    "componentTree (scanComponentTree toLowerCase (scanComponentTree toLowerCase w)) = ?R2"
    by (simp_all add: w2)
  have sel1: "heap (scanComponentTree toLowerCase w) = ?H1" "componentTree (scanComponentTree toLowerCase w) = ?R1"
    by (simp_all add: w1)
  show ?thesis
    unfolding sel2 sel1 using f1 f2 n1 n2 disj frame by blast
qed

text \<open>
  C5 (as amended). \<^verbatim>\<open>select(node)\<close> sets \<open>selectedNode\<close> to the node and leaves the heap
  and the tree as they were. In the document it assigns the empty string to the inline
  outline and to the inline outline offset of exactly those elements whose \<^verbatim>\<open>style\<close>
  attribute contains the text \<^verbatim>\<open>outline\<close> (compared case-sensitively, whether or not the
  outline property of the element is empty), and leaves the \<^verbatim>\<open>style\<close> attribute of every
  other element as it is. It then assigns \<^verbatim>\<open>2px solid #007acc\<close> to the outline of the
  node's element and \<^verbatim>\<open>2px\<close> to its outline offset. Tag names, attributes other than
  \<^verbatim>\<open>style\<close> and the shape of the tree are unchanged. This holds whatever the browser's
  CSS object model does with the four assignments.
\<close>
theorem select_sets_selection_and_highlight:
  "selectedNode (selectNode css w node) = Some node \<and>
   heap (selectNode css w node) = heap w \<and>
   componentTree (selectNode css w node) = componentTree w \<and>
   (\<forall>el. styleAttributeOf (doc (selectNode css w node)) el
      = map_option
          (\<lambda>a. let cleared = (if attributeContains a ''outline''
                              then setOutlineOffset css '''' (setOutline css '''' a) else a)
               in if el = element (heap w ! node)
                  then setOutlineOffset css ''2px'' (setOutline css ''2px solid #007acc'' cleared)
                  else cleared)
          (styleAttributeOf (doc w) el)) \<and>
   (\<forall>el. shapeOf (doc (selectNode css w node)) el = shapeOf (doc w) el)"
proof (intro conjI allI)
  show "selectedNode (selectNode css w node) = Some node"
    by (simp add: selectNode_def Let_def clearHighlights_def)
  show "heap (selectNode css w node) = heap w"
    by (simp add: selectNode_def Let_def clearHighlights_def)
  show "componentTree (selectNode css w node) = componentTree w"
    by (simp add: selectNode_def Let_def clearHighlights_def)
  show "styleAttributeOf (doc (selectNode css w node)) el
      = map_option
          (\<lambda>a. let cleared = (if attributeContains a ''outline''
                              then setOutlineOffset css '''' (setOutline css '''' a) else a)
               in if el = element (heap w ! node)
                  then setOutlineOffset css ''2px'' (setOutline css ''2px solid #007acc'' cleared)
                  else cleared)
          (styleAttributeOf (doc w) el)" for el
    by (rule styleAttributeOf_selectNode)
  show "shapeOf (doc (selectNode css w node)) el = shapeOf (doc w) el" for el
    by (rule shapeOf_selectNode)
qed

theorem select_sets_selection_and_highlight_witness:
  "element (heap (scanComponentTree asciiToLowerCase (newPanel styledPage)) ! 1) = [1, 0, 0] \<and>
   selectedNode (selectNode exampleCSSOM (scanComponentTree asciiToLowerCase (newPanel styledPage)) 1)
     = Some 1 \<and>
   styleAttributeOf (doc (scanComponentTree asciiToLowerCase (newPanel styledPage))) [1, 2]
     = Some (Some ''color: red; outline: 1px solid red'') \<and>
   styleAttributeOf
     (doc (selectNode exampleCSSOM (scanComponentTree asciiToLowerCase (newPanel styledPage)) 1)) [1, 2]
     = Some (Some ''color: red;'') \<and>
   styleAttributeOf
     (doc (selectNode exampleCSSOM (scanComponentTree asciiToLowerCase (newPanel styledPage)) 1)) [1, 0, 0]
     = Some (Some ''outline: rgb(0, 122, 204) solid 2px; outline-offset: 2px;'') \<and>
   styleAttributeOf
     (doc (selectNode exampleCSSOM (scanComponentTree asciiToLowerCase (newPanel styledPage)) 1)) [1, 0]
     = Some None \<and>
   shapeOf (doc (selectNode exampleCSSOM (scanComponentTree asciiToLowerCase (newPanel styledPage)) 1))
     [1, 2] = Some (''DIV'', [(''data-source-path'', ''E'')], 0)"
proof -
  let ?w = "scanComponentTree asciiToLowerCase (newPanel styledPage)"
  note t = select_sets_selection_and_highlight[of exampleCSSOM ?w 1]
  have el: "element (heap ?w ! 1) = [1, 0, 0]" by code_simp
  from t have sel: "selectedNode (selectNode exampleCSSOM ?w 1) = Some 1" by blast
  have e0: "styleAttributeOf (doc ?w) [1, 2] = Some (Some ''color: red; outline: 1px solid red'')"
    by code_simp
  have b0: "styleAttributeOf (doc ?w) [1, 0, 0] = Some None" by code_simp
  have a0: "styleAttributeOf (doc ?w) [1, 0] = Some None" by code_simp
  have s0: "shapeOf (doc ?w) [1, 2] = Some (''DIV'', [(''data-source-path'', ''E'')], 0)"
    by code_simp
  have m1: "attributeContains (Some ''color: red; outline: 1px solid red'') ''outline''"
    by code_simp
  have m2: "\<not> attributeContains None ''outline''" by code_simp
  have c1: "setOutlineOffset exampleCSSOM ''''
              (setOutline exampleCSSOM '''' (Some ''color: red; outline: 1px solid red''))
            = Some ''color: red;''"
    by code_simp
  have c2: "setOutlineOffset exampleCSSOM ''2px'' (setOutline exampleCSSOM ''2px solid #007acc'' None)
            = Some ''outline: rgb(0, 122, 204) solid 2px; outline-offset: 2px;''"
    by code_simp
  from t have st: "styleAttributeOf (doc (selectNode exampleCSSOM ?w 1)) q
      = map_option
          (\<lambda>a. let cleared = (if attributeContains a ''outline''
                              then setOutlineOffset exampleCSSOM '''' (setOutline exampleCSSOM '''' a)
                              else a)
               in if q = element (heap ?w ! 1)
                  then setOutlineOffset exampleCSSOM ''2px''
                         (setOutline exampleCSSOM ''2px solid #007acc'' cleared)
                  else cleared)
          (styleAttributeOf (doc ?w) q)" for q
    by blast
  from t have sh: "shapeOf (doc (selectNode exampleCSSOM ?w 1)) q = shapeOf (doc ?w) q" for q
    by blast
  have e1: "styleAttributeOf (doc (selectNode exampleCSSOM ?w 1)) [1, 2] = Some (Some ''color: red;'')"
    unfolding st e0 el using m1 c1 by simp
  have b1: "styleAttributeOf (doc (selectNode exampleCSSOM ?w 1)) [1, 0, 0]
      = Some (Some ''outline: rgb(0, 122, 204) solid 2px; outline-offset: 2px;'')"
    unfolding st b0 el using m2 c2 by simp
  have a1: "styleAttributeOf (doc (selectNode exampleCSSOM ?w 1)) [1, 0] = Some None"
    unfolding st a0 el using m2 by simp
  have s1: "shapeOf (doc (selectNode exampleCSSOM ?w 1)) [1, 2]
      = Some (''DIV'', [(''data-source-path'', ''E'')], 0)"
    unfolding sh by (rule s0)
  from el sel e0 e1 b1 a1 s1 show ?thesis by blast
qed

theorem select_clears_offset_without_outline_counterexample:
  "element (heap (scanComponentTree asciiToLowerCase (newPanel styledPage)) ! 0) = [1, 0] \<and>
   styleAttributeOf (doc (scanComponentTree asciiToLowerCase (newPanel styledPage))) [1, 1]
     = Some (Some ''outline-offset: 4px'') \<and>
   getOutline exampleCSSOM (Some ''outline-offset: 4px'') = '''' \<and>
   styleAttributeOf
     (doc (selectNode exampleCSSOM (scanComponentTree asciiToLowerCase (newPanel styledPage)) 0)) [1, 1]
     = Some (Some '''') \<and>
   styleAttributeOf (doc (scanComponentTree asciiToLowerCase (newPanel styledPage))) [1, 3]
     = Some (Some ''OUTLINE: 1px solid red'') \<and>
   getOutline exampleCSSOM (Some ''OUTLINE: 1px solid red'') \<noteq> '''' \<and>
   styleAttributeOf
     (doc (selectNode exampleCSSOM (scanComponentTree asciiToLowerCase (newPanel styledPage)) 0)) [1, 3]
     = Some (Some ''OUTLINE: 1px solid red'')"
  by code_simp

text \<open>
  C6. After a rescan no node of the new forest is the selected node: \<open>selectedNode\<close>
  still refers to an object that existed before the scan, and every node of the new
  forest is a new object, so the identity comparison made when a node is rendered is
  false for each of them and no rendered line has the class \<^verbatim>\<open>selected\<close>.
\<close>
theorem rescan_leaves_nothing_selected:
  assumes "\<forall>node. selectedNode w = Some node \<longrightarrow> node < length (heap w)"
  shows "\<exists>ns lines.
     forestNodes (length (findElementsWithSourcePath (doc w) (document_body (doc w))))
       (heap (scanComponentTree toLowerCase w)) (componentTree (scanComponentTree toLowerCase w)) = Some ns \<and>
     (\<forall>node \<in> set ns. selectedNode (scanComponentTree toLowerCase w) \<noteq> Some node) \<and>
     renderTree (length (findElementsWithSourcePath (doc w) (document_body (doc w))))
       (scanComponentTree toLowerCase w) = Some lines \<and>
     map clickTarget lines = ns \<and>
     (\<forall>line \<in> set lines. cssClass line = ''tree-node '')"
proof -
  let ?els = "findElementsWithSourcePath (doc w) (document_body (doc w))"
  let ?ns = "[length (heap w)..<length (heap w) + length ?els]"
  let ?w = "scanComponentTree toLowerCase w"
  have sel: "selectedNode ?w = selectedNode w" by (simp add: scanComponentTree_eq Let_def)
  have notsel: "selectedNode ?w \<noteq> Some node" if "node \<in> set ?ns" for node
    using that assms sel by auto
  have cls: "cssClass line = ''tree-node ''" if "line \<in> set (map (treeNodeLine ?w) ?ns)" for line
  proof -
    from that obtain node where "node \<in> set ?ns" "line = treeNodeLine ?w node" by auto
    with notsel show ?thesis by (simp add: treeNodeLine_def Let_def)
  qed
  have tgt: "map clickTarget (map (treeNodeLine ?w) ?ns) = ?ns"
    by (simp add: treeNodeLine_def Let_def comp_def)
  show ?thesis
    using forestNodes_scan[of w] renderTree_scan[of w] notsel cls tgt by blast
qed

theorem rescan_leaves_nothing_selected_witness:
  "selectedNode (selectNode exampleCSSOM (scanComponentTree asciiToLowerCase (newPanel scenarioPage)) 1) = Some 1 \<and>
   length (heap (selectNode exampleCSSOM (scanComponentTree asciiToLowerCase (newPanel scenarioPage)) 1)) = 3 \<and>
   sourcePath (heap (selectNode exampleCSSOM (scanComponentTree asciiToLowerCase (newPanel scenarioPage)) 1) ! 1) = ''B'' \<and>
   map cssClass (the (renderTree 3 (selectNode exampleCSSOM (scanComponentTree asciiToLowerCase (newPanel scenarioPage)) 1)))
     = [''tree-node '', ''tree-node selected'', ''tree-node ''] \<and>
   map cssClass (the (renderTree 3
       (scanComponentTree asciiToLowerCase (selectNode exampleCSSOM (scanComponentTree asciiToLowerCase (newPanel scenarioPage)) 1))))
     = [''tree-node '', ''tree-node '', ''tree-node ''] \<and>
   map pathText (the (renderTree 3
       (scanComponentTree asciiToLowerCase (selectNode exampleCSSOM (scanComponentTree asciiToLowerCase (newPanel scenarioPage)) 1))))
     = [''A'', ''B'', ''C'']"
proof -
  let ?w = "selectNode exampleCSSOM (scanComponentTree asciiToLowerCase (newPanel scenarioPage)) 1"
  have s: "selectedNode ?w = Some 1" by code_simp
  have l: "length (heap ?w) = 3" by code_simp
  have b: "sourcePath (heap ?w ! 1) = ''B''" by code_simp
  have before: "map cssClass (the (renderTree 3 ?w))
     = [''tree-node '', ''tree-node selected'', ''tree-node '']" by code_simp
  have n: "length (findElementsWithSourcePath (doc ?w) (document_body (doc ?w))) = 3" by code_simp
  have r: "renderTree 3 (scanComponentTree asciiToLowerCase ?w) \<noteq> None" by code_simp
  have p: "map pathText (the (renderTree 3 (scanComponentTree asciiToLowerCase ?w))) = [''A'', ''B'', ''C'']"
    by code_simp
  have h: "\<forall>node. selectedNode ?w = Some node \<longrightarrow> node < length (heap ?w)"
    using s l by simp
  from rescan_leaves_nothing_selected[OF h, of asciiToLowerCase] obtain ns lines where
    ns: "forestNodes 3 (heap (scanComponentTree asciiToLowerCase ?w)) (componentTree (scanComponentTree asciiToLowerCase ?w)) = Some ns"
    and ln: "renderTree 3 (scanComponentTree asciiToLowerCase ?w) = Some lines"
    and tg: "map clickTarget lines = ns"
    and cl: "\<forall>line \<in> set lines. cssClass line = ''tree-node ''"
    unfolding n by blast
  from p ln have "length lines = 3" by (metis length_map option.sel length_Cons list.size(3) numeral_3_eq_3)
  then obtain a b c where "lines = [a, b, c]"
    by (metis length_0_conv length_Suc_conv numeral_3_eq_3)
  with cl ln have after: "map cssClass (the (renderTree 3 (scanComponentTree asciiToLowerCase ?w)))
     = [''tree-node '', ''tree-node '', ''tree-node '']" by simp
  from s l b before after p show ?thesis by blast
qed

text \<open>
  C7. The tree renders one line per node, in document order, so that the lines of a
  node's children follow the node's own line, child after child in document order
  (each child with the lines of its own subtree). A line shows the node's tag name
  between angle brackets and its source path, and its indentation is the two-space
  unit repeated \<open>depth\<close> times: twice \<open>depth\<close> characters, whatever the other fields are.
  This is the text the template produces; the width in pixels is the layout engine's.
\<close>
theorem render_lines_indent_and_order:
  "renderTree (length (findElementsWithSourcePath (doc w) (document_body (doc w))))
     (scanComponentTree toLowerCase w)
     = Some (map (treeNodeLine (scanComponentTree toLowerCase w))
         [length (heap w)..<
          length (heap w) + length (findElementsWithSourcePath (doc w) (document_body (doc w)))]) \<and>
   map (\<lambda>node. element (heap (scanComponentTree toLowerCase w) ! node))
     [length (heap w)..<
      length (heap w) + length (findElementsWithSourcePath (doc w) (document_body (doc w)))]
     = findElementsWithSourcePath (doc w) (document_body (doc w)) \<and>
   sorted_wrt (<) (findElementsWithSourcePath (doc w) (document_body (doc w))) \<and>
   (\<forall>node.
      indentText (treeNodeLine (scanComponentTree toLowerCase w) node)
        = repeat ''  '' (depth (heap (scanComponentTree toLowerCase w) ! node)) \<and>
      length (indentText (treeNodeLine (scanComponentTree toLowerCase w) node))
        = 2 * depth (heap (scanComponentTree toLowerCase w) ! node) \<and>
      tagText (treeNodeLine (scanComponentTree toLowerCase w) node)
        = ''<'' @ tagName (heap (scanComponentTree toLowerCase w) ! node) @ ''>'' \<and>
      pathText (treeNodeLine (scanComponentTree toLowerCase w) node)
        = sourcePath (heap (scanComponentTree toLowerCase w) ! node)) \<and>
   (\<forall>fuel node.
      renderTreeNode (Suc fuel) (scanComponentTree toLowerCase w) node
        = map_option (\<lambda>rendered. treeNodeLine (scanComponentTree toLowerCase w) node # concat rendered)
            (those (map (renderTreeNode fuel (scanComponentTree toLowerCase w))
                      (children (heap (scanComponentTree toLowerCase w) ! node))))) \<and>
   (\<forall>node \<in> set [length (heap w)..<
        length (heap w) + length (findElementsWithSourcePath (doc w) (document_body (doc w)))].
      sorted_wrt (<) (map (\<lambda>c. element (heap (scanComponentTree toLowerCase w) ! c))
                        (children (heap (scanComponentTree toLowerCase w) ! node))))"
proof -
  let ?els = "findElementsWithSourcePath (doc w) (document_body (doc w))"
  let ?b = "length (heap w)"
  let ?H = "linkedHeap toLowerCase (doc w) (heap w) ?els (length ?els)"
  let ?w = "scanComponentTree toLowerCase w"
  note s = findElements_sorted[of "doc w" "document_body (doc w)"]
  have hp: "heap ?w = ?H" by (simp add: scanComponentTree_eq Let_def)
  show ?thesis
  proof (intro conjI allI ballI)
    show "renderTree (length ?els) ?w = Some (map (treeNodeLine ?w) [?b..<?b + length ?els])"
      by (rule renderTree_scan)
    show "map (\<lambda>node. element (heap ?w ! node)) [?b..<?b + length ?els] = ?els"
      unfolding hp by (rule nth_equalityI) (simp_all add: linkedHeap_nth_new)
    show "sorted_wrt (<) ?els" by (rule s)
    show "indentText (treeNodeLine ?w node) = repeat ''  '' (depth (heap ?w ! node))" for node
      by (simp add: treeNodeLine_def Let_def)
    show "length (indentText (treeNodeLine ?w node)) = 2 * depth (heap ?w ! node)" for node
      by (simp add: treeNodeLine_def Let_def length_repeat)
    show "tagText (treeNodeLine ?w node) = ''<'' @ tagName (heap ?w ! node) @ ''>''" for node
      by (simp add: treeNodeLine_def Let_def)
    show "pathText (treeNodeLine ?w node) = sourcePath (heap ?w ! node)" for node
      by (simp add: treeNodeLine_def Let_def)
    show "renderTreeNode (Suc fuel) ?w node
        = map_option (\<lambda>rendered. treeNodeLine ?w node # concat rendered)
            (those (map (renderTreeNode fuel ?w) (children (heap ?w ! node))))" for fuel node
      by simp
    show "sorted_wrt (<) (map (\<lambda>c. element (heap ?w ! c)) (children (heap ?w ! node)))"
      if "node \<in> set [?b..<?b + length ?els]" for node
    proof -
      from in_upt_offset[OF that] obtain i where "i < length ?els" "node = ?b + i" by blast
      with children_elements_sorted[OF s, of i toLowerCase "doc w" "heap w"] show ?thesis
        unfolding hp by simp
    qed
  qed
qed

theorem render_lines_indent_and_order_witness:
  "renderTree 3 (scanComponentTree asciiToLowerCase (newPanel scenarioPage))
     = Some [\<lparr>cssClass = ''tree-node '', indentText = '''', tagText = ''<div>'',
              pathText = ''A'', clickTarget = 0\<rparr>,
            \<lparr>cssClass = ''tree-node '', indentText = ''  '', tagText = ''<span>'',
              pathText = ''B'', clickTarget = 1\<rparr>,
            \<lparr>cssClass = ''tree-node '', indentText = ''    '', tagText = ''<b>'',
              pathText = ''C'', clickTarget = 2\<rparr>] \<and>
   map (\<lambda>node. depth (heap (scanComponentTree asciiToLowerCase (newPanel scenarioPage)) ! node)) [0, 1, 2]
     = [0, 1, 2] \<and>
   sorted_wrt (<) (map (\<lambda>c. element (heap (scanComponentTree asciiToLowerCase (newPanel scenarioPage)) ! c))
                     (children (heap (scanComponentTree asciiToLowerCase (newPanel scenarioPage)) ! 0)))"
proof -
  let ?w = "scanComponentTree asciiToLowerCase (newPanel scenarioPage)"
  have n: "length (findElementsWithSourcePath (doc (newPanel scenarioPage))
             (document_body (doc (newPanel scenarioPage)))) = 3"
    by code_simp
  have l: "length (heap (newPanel scenarioPage)) = 0" by code_simp
  have lines: "map (treeNodeLine ?w) [0..<3]
     = [\<lparr>cssClass = ''tree-node '', indentText = '''', tagText = ''<div>'',
              pathText = ''A'', clickTarget = 0\<rparr>,
            \<lparr>cssClass = ''tree-node '', indentText = ''  '', tagText = ''<span>'',
              pathText = ''B'', clickTarget = 1\<rparr>,
            \<lparr>cssClass = ''tree-node '', indentText = ''    '', tagText = ''<b>'',
              pathText = ''C'', clickTarget = 2\<rparr>]"
    by code_simp
  have dp: "map (\<lambda>node. depth (heap ?w ! node)) [0, 1, 2] = [0, 1, 2]" by code_simp
  note t = render_lines_indent_and_order[of "newPanel scenarioPage" asciiToLowerCase, unfolded n l]
  from t have r: "renderTree 3 ?w = Some (map (treeNodeLine ?w) [0..<0 + 3])" by blast
  from t have "\<forall>node \<in> set [0..<0 + 3].
      sorted_wrt (<) (map (\<lambda>c. element (heap ?w ! c)) (children (heap ?w ! node)))" by blast
  then have c: "sorted_wrt (<) (map (\<lambda>c. element (heap ?w ! c)) (children (heap ?w ! 0)))"
    by simp
  from r lines dp c show ?thesis by simp
qed

text \<open>
  C8. When no element of the document carries the marker attribute, the scan yields the
  empty forest and the tree renders to nothing. The scan has no failing branch, and the
  render returns (whatever the bound on its recursion depth).
\<close>
theorem no_marked_elements_empty:
  assumes "\<forall>el \<in> set (allElements (doc w)). \<not> hasAttribute (doc w) el ''data-source-path''"
  shows "componentTree (scanComponentTree toLowerCase w) = [] \<and> renderTree fuel (scanComponentTree toLowerCase w) = Some []"
proof -
  have "set (findElementsWithSourcePath (doc w) (document_body (doc w))) = {}"
    using assms by (auto simp: set_findElements set_allElements hasAttribute_def split: option.splits)
  then have "findElementsWithSourcePath (doc w) (document_body (doc w)) = []" by simp
  then show ?thesis
    by (simp add: scanComponentTree_eq linkedRoots_def renderTree_def)
qed

theorem no_marked_elements_empty_witness:
  "filter (\<lambda>el. hasAttribute (doc (newPanel unmarkedPage)) el ''data-source-path'')
     (allElements (doc (newPanel unmarkedPage))) = [] \<and>
   length (allElements (doc (newPanel unmarkedPage))) = 6 \<and>
   componentTree (scanComponentTree asciiToLowerCase (newPanel unmarkedPage)) = [] \<and>
   renderTree 0 (scanComponentTree asciiToLowerCase (newPanel unmarkedPage)) = Some []"
proof -
  have f: "filter (\<lambda>el. hasAttribute (doc (newPanel unmarkedPage)) el ''data-source-path'')
     (allElements (doc (newPanel unmarkedPage))) = []"
    by code_simp
  have l: "length (allElements (doc (newPanel unmarkedPage))) = 6"
    by code_simp
  from f have h: "\<forall>el \<in> set (allElements (doc (newPanel unmarkedPage))).
      \<not> hasAttribute (doc (newPanel unmarkedPage)) el ''data-source-path''"
    by (simp add: filter_empty_conv)
  from no_marked_elements_empty[OF h, of asciiToLowerCase 0] f l show ?thesis by simp
qed

text \<open>
  C9. The scan (collecting the elements and building the tree) does not change the DOM:
  the document after \<^verbatim>\<open>scanComponentTree toLowerCase\<close> is the document before it.
\<close>
theorem scan_reads_only: "doc (scanComponentTree toLowerCase w) = doc w"
  by (simp add: scanComponentTree_eq Let_def)

text \<open>
  C10. A rescan leaves everything but \<open>componentTree\<close> as it was: \<open>selectedNode\<close> is
  the same reference, every object that existed before the scan (the selected node among
  them, so the detail panel still shows it) is unchanged, and the document, with any
  outline applied to an element's inline style, is unchanged.
\<close>
theorem rescan_frame:
  "selectedNode (scanComponentTree toLowerCase w) = selectedNode w \<and>
   doc (scanComponentTree toLowerCase w) = doc w \<and>
   take (length (heap w)) (heap (scanComponentTree toLowerCase w)) = heap w \<and>
   (\<forall>node < length (heap w).
      selectedNode w = Some node \<longrightarrow>
      heap (scanComponentTree toLowerCase w) ! node = heap w ! node \<and>
      renderSelectedNodeInfo (scanComponentTree toLowerCase w) = renderSelectedNodeInfo w)"
proof -
  have old: "heap (scanComponentTree toLowerCase w) ! node = heap w ! node" if "node < length (heap w)" for node
    using that by (simp add: scanComponentTree_eq Let_def linkedHeap_nth_old)
  have sel: "selectedNode (scanComponentTree toLowerCase w) = selectedNode w"
    by (simp add: scanComponentTree_eq Let_def)
  have "renderSelectedNodeInfo (scanComponentTree toLowerCase w) = renderSelectedNodeInfo w"
    if "node < length (heap w)" "selectedNode w = Some node" for node
    using that old[OF that(1)] sel by (simp add: renderSelectedNodeInfo_def)
  with old sel show ?thesis
    by (simp add: scanComponentTree_eq Let_def linkedHeap_def)
qed

theorem rescan_frame_witness:
  "selectedNode (selectNode exampleCSSOM (scanComponentTree asciiToLowerCase (newPanel styledPage)) 3)
     = Some 3 \<and>
   length (heap (selectNode exampleCSSOM (scanComponentTree asciiToLowerCase (newPanel styledPage)) 3))
     = 4 \<and>
   selectedNode
     (scanComponentTree asciiToLowerCase
        (selectNode exampleCSSOM (scanComponentTree asciiToLowerCase (newPanel styledPage)) 3))
     = Some 3 \<and>
   renderSelectedNodeInfo
     (scanComponentTree asciiToLowerCase
        (selectNode exampleCSSOM (scanComponentTree asciiToLowerCase (newPanel styledPage)) 3))
     = Some (''div'', ''E'', 0) \<and>
   styleAttributeOf
     (doc (scanComponentTree asciiToLowerCase
        (selectNode exampleCSSOM (scanComponentTree asciiToLowerCase (newPanel styledPage)) 3))) [1, 2]
     = Some (Some ''color: red; outline: rgb(0, 122, 204) solid 2px; outline-offset: 2px;'')"
proof -
  let ?w = "selectNode exampleCSSOM (scanComponentTree asciiToLowerCase (newPanel styledPage)) 3"
  have s: "selectedNode ?w = Some 3" by code_simp
  have l: "length (heap ?w) = 4" by code_simp
  have i: "renderSelectedNodeInfo ?w = Some (''div'', ''E'', 0)" by code_simp
  have o: "styleAttributeOf (doc ?w) [1, 2]
     = Some (Some ''color: red; outline: rgb(0, 122, 204) solid 2px; outline-offset: 2px;'')"
    by code_simp
  from rescan_frame[of asciiToLowerCase ?w] s l i o show ?thesis by simp
qed

end
